theory Spec2Isabelle
  imports Complex_Main "HOL-Library.Word" "HOL-Library.Monad_Syntax"
begin

section \<open>Data model of the acquisition engine (main.ino)\<close>

text \<open>
  Samples, the trigger level and the voltage scales are \<open>uint16_t\<close> values and are
  modelled as 16-bit words; the \<open>micros()\<close> clock and the time stamps derived from it
  are \<open>uint32_t\<close> and are modelled as 32-bit words, so that differences of time stamps
  wrap as they do on the device.  Array indices and counters (\<open>bufferIndex\<close>,
  \<open>triggerIndex\<close>, \<open>triggerChannel\<close>) are natural numbers; where the source stores
  the result of an \<open>int\<close> computation into a \<open>uint16_t\<close>, the reduction modulo
  \<open>65536\<close> is written out.  The two \<open>float\<close> fields of the configuration are kept
  as reals: they are stored, compared with constants, and the time base enters one
  computation that is exact in double precision (see \<open>sampleInterval\<close>).
\<close>

type_synonym u16 = "16 word"
type_synonym u32 = "32 word"

datatype TriggerMode = TRIG_AUTO | TRIG_NORMAL | TRIG_SINGLE

datatype TriggerSlope = TRIG_RISING | TRIG_FALLING

datatype CouplingType = COUPLING_DC | COUPLING_AC

record OscilloscopeConfig =
  channelEnabled :: "bool list"
  vScale :: "u16 list"
  position :: "real list"
  coupling :: "CouplingType list"
  hScale :: real
  triggerChannel :: nat
  triggerLevel :: u16
  triggerMode :: TriggerMode
  triggerSlope :: TriggerSlope
  running :: bool
  autosetRequested :: bool
  autoTriggerTimeout :: u32
  lastTriggerTime :: u32

definition BUFFER_SIZE :: nat where
  "BUFFER_SIZE = 512"

definition DISPLAY_SAMPLES :: nat where
  "DISPLAY_SAMPLES = 256"

text \<open>
  The globals of the sketch together with the two locals of \<open>acquisitionTask\<close> that
  live across loop iterations (\<open>autoTriggerStart\<close>, \<open>waitingForTrigger\<close>).
\<close>

record ScopeState =
  config :: OscilloscopeConfig
  sampleBuffer :: "u16 list list"
  displayBuffer :: "u16 list list"
  bufferIndex :: nat
  triggerIndex :: nat
  bufferReady :: bool
  triggered :: bool
  lastSampleTime :: u32
  autoTriggerStart :: u32
  waitingForTrigger :: bool

text \<open>
  What one loop iteration reads from outside: the clock, the four converter readings
  (already narrowed to \<open>uint16_t\<close>), and, for a channel with AC coupling, the value of
  the floating-point expression \<open>(uint16_t)constrain(raw - dcFilter[ch] + 2048, 0, 4095)\<close>.
  The filter state \<open>dcFilter\<close> is single-precision floating point and is not part of
  the model; its effect on the stored sample enters as \<open>acOut\<close>.
\<close>

record TickInput =
  micros :: u32
  adcRaw :: "nat \<Rightarrow> u16"
  acOut :: "nat \<Rightarrow> u16"

subsection \<open>Checked array accesses\<close>

text \<open>
  C arrays do not check their indices.  An access outside the array is undefined
  behaviour; the model makes it the result \<open>None\<close>.  Indices are \<open>int\<close>, as the index
  expressions of the source are, so that \<open>triggerChannel - 1\<close> and \<open>bufferIndex - 1\<close>
  can be negative.
\<close>

definition arr_get :: "'a list \<Rightarrow> int \<Rightarrow> 'a option" where
  "arr_get xs i = (if 0 \<le> i \<and> i < int (length xs) then Some (xs ! nat i) else None)"

definition arr_set :: "'a list \<Rightarrow> int \<Rightarrow> 'a \<Rightarrow> 'a list option" where
  "arr_set xs i v = (if 0 \<le> i \<and> i < int (length xs) then Some (xs[nat i := v]) else None)"

definition arr2_get :: "'a list list \<Rightarrow> int \<Rightarrow> int \<Rightarrow> 'a option" where
  "arr2_get xss r i = do { row \<leftarrow> arr_get xss r; arr_get row i }"

definition arr2_set :: "'a list list \<Rightarrow> int \<Rightarrow> int \<Rightarrow> 'a \<Rightarrow> 'a list list option" where
  "arr2_set xss r i v =
     do { row \<leftarrow> arr_get xss r; row' \<leftarrow> arr_set row i v; arr_set xss r row' }"

section \<open>The acquisition loop\<close>

subsection \<open>Reading the channels (lines 171-183)\<close>

definition sample_channel :: "TickInput \<Rightarrow> nat \<Rightarrow> ScopeState \<Rightarrow> ScopeState option" where
  "sample_channel inp ch s =
     do {
       c \<leftarrow> arr_get (coupling (config s)) (int ch);
       let raw = (if c = COUPLING_AC then acOut inp ch else adcRaw inp ch);
       buf \<leftarrow> arr2_set (sampleBuffer s) (int ch) (int (bufferIndex s)) raw;
       Some (s\<lparr>sampleBuffer := buf\<rparr>)
     }"

fun read_channels :: "TickInput \<Rightarrow> nat list \<Rightarrow> ScopeState \<Rightarrow> ScopeState option" where
  "read_channels inp [] s = Some s"
| "read_channels inp (ch # chs) s =
     do { s' \<leftarrow> sample_channel inp ch s; read_channels inp chs s' }"

subsection \<open>Trigger logic (lines 185-217)\<close>

text \<open>
  \<open>uint16_t triggerADC = (config.triggerLevel * 4095) / 3300\<close>: the operands are
  promoted to 32-bit \<open>int\<close>, where the product of a 16-bit value and 4095 cannot
  overflow; the quotient is narrowed to 16 bits.
\<close>

definition triggerADC :: "u16 \<Rightarrow> u16" where
  "triggerADC level = word_of_nat ((unat level * 4095) div 3300)"

definition triggerEvent :: "TriggerSlope \<Rightarrow> u16 \<Rightarrow> u16 \<Rightarrow> u16 \<Rightarrow> bool" where
  "triggerEvent slope prevSample triggerSample adc =
     (if slope = TRIG_RISING then prevSample < adc \<and> triggerSample \<ge> adc
      else prevSample > adc \<and> triggerSample \<le> adc)"

definition trigger_logic :: "u32 \<Rightarrow> ScopeState \<Rightarrow> ScopeState option" where
  "trigger_logic currentTime s =
     (if triggerMode (config s) \<noteq> TRIG_AUTO \<or> \<not> waitingForTrigger s then
        if bufferIndex s > 2 then
          do {
            en \<leftarrow> arr_get (channelEnabled (config s)) (int (triggerChannel (config s)) - 1);
            if en then
              do {
                triggerSample \<leftarrow> arr2_get (sampleBuffer s)
                   (int (triggerChannel (config s)) - 1) (int (bufferIndex s));
                prevSample \<leftarrow> arr2_get (sampleBuffer s)
                   (int (triggerChannel (config s)) - 1) (int (bufferIndex s) - 1);
                if triggerEvent (triggerSlope (config s)) prevSample triggerSample
                     (triggerADC (triggerLevel (config s)))
                then Some (s\<lparr>triggered := True, triggerIndex := bufferIndex s,
                             waitingForTrigger := False, autoTriggerStart := currentTime\<rparr>)
                else Some s
              }
            else Some s
          }
        else Some s
      else Some s)"

definition auto_trigger :: "u32 \<Rightarrow> ScopeState \<Rightarrow> ScopeState" where
  "auto_trigger currentTime s =
     (if triggerMode (config s) = TRIG_AUTO \<and> \<not> triggered s \<and>
         currentTime - autoTriggerStart s > autoTriggerTimeout (config s)
      then s\<lparr>triggered := True, triggerIndex := bufferIndex s,
              autoTriggerStart := currentTime\<rparr>
      else s)"

subsection \<open>Advancing the cursor (lines 219-222)\<close>

definition advance_cursor :: "ScopeState \<Rightarrow> ScopeState" where
  "advance_cursor s =
     (let b = (bufferIndex s + 1) mod 65536
      in s\<lparr>bufferIndex := (if b \<ge> BUFFER_SIZE then 0 else b)\<rparr>)"

subsection \<open>Snapshot extraction (lines 224-242 and copyToDisplayBuffer)\<close>

text \<open>
  \<open>startIndex\<close> and \<open>sourceIndex\<close> are \<open>int\<close> in the source.
\<close>

definition startIndex :: "nat \<Rightarrow> int" where
  "startIndex trig =
     (if trig \<ge> DISPLAY_SAMPLES div 4 then int trig - int (DISPLAY_SAMPLES div 4)
      else int BUFFER_SIZE + int trig - int (DISPLAY_SAMPLES div 4))"

text \<open>The \<open>%\<close> of C truncates towards zero: a negative dividend gives a negative remainder.\<close>

definition c_rem :: "int \<Rightarrow> int \<Rightarrow> int" where
  "c_rem a b = (if a \<ge> 0 then a mod \<bar>b\<bar> else - ((- a) mod \<bar>b\<bar>))"

definition copy_sample :: "int \<Rightarrow> nat \<Rightarrow> nat \<Rightarrow> ScopeState \<Rightarrow> ScopeState option" where
  "copy_sample start ch i s =
     do {
       let sourceIndex = c_rem (start + int i) (int BUFFER_SIZE);
       v \<leftarrow> arr2_get (sampleBuffer s) (int ch) sourceIndex;
       d \<leftarrow> arr2_set (displayBuffer s) (int ch) (int i) v;
       Some (s\<lparr>displayBuffer := d\<rparr>)
     }"

fun copy_row :: "int \<Rightarrow> nat \<Rightarrow> nat list \<Rightarrow> ScopeState \<Rightarrow> ScopeState option" where
  "copy_row start ch [] s = Some s"
| "copy_row start ch (i # is) s =
     do { s' \<leftarrow> copy_sample start ch i s; copy_row start ch is s' }"

fun copy_rows :: "int \<Rightarrow> nat list \<Rightarrow> ScopeState \<Rightarrow> ScopeState option" where
  "copy_rows start [] s = Some s"
| "copy_rows start (ch # chs) s =
     do { s' \<leftarrow> copy_row start ch [0..<DISPLAY_SAMPLES] s; copy_rows start chs s' }"

definition copyToDisplayBuffer :: "ScopeState \<Rightarrow> ScopeState option" where
  "copyToDisplayBuffer s = copy_rows (startIndex (triggerIndex s)) [0..<4] s"

text \<open>
  \<open>uint16_t postTriggerSamples\<close>: computed in \<open>int\<close> and narrowed to 16 bits.
\<close>

definition postTriggerSamples :: "nat \<Rightarrow> nat \<Rightarrow> nat" where
  "postTriggerSamples b trig =
     (if b \<ge> trig then nat ((int b - int trig) mod 65536)
      else nat ((int BUFFER_SIZE - int trig + int b) mod 65536))"

definition extract_snapshot :: "ScopeState \<Rightarrow> ScopeState option" where
  "extract_snapshot s =
     (if triggered s then
        if postTriggerSamples (bufferIndex s) (triggerIndex s) \<ge> DISPLAY_SAMPLES div 2 then
          do {
            s' \<leftarrow> copyToDisplayBuffer s;
            let s'' = s'\<lparr>bufferReady := True\<rparr>;
            let s''' = (if triggerMode (config s'') = TRIG_SINGLE
                        then s''\<lparr>config := (config s'')\<lparr>running := False\<rparr>\<rparr> else s'');
            Some (s'''\<lparr>triggered := False, waitingForTrigger := True\<rparr>)
          }
        else Some s
      else Some s)"

subsection \<open>One pass of the \<open>while(true)\<close> loop (lines 157-248)\<close>

text \<open>
  \<open>sampleInterval = (uint32_t)(config.hScale * 1000.0 / (DISPLAY_SAMPLES / 8.0))\<close> is
  evaluated in double precision.  A \<open>float\<close> times 1000 has at most 34 significant bits
  and the division is by 32, so no rounding takes place and the value is the exact
  quotient; the conversion truncates it (the time base is positive).
\<close>

definition sampleInterval :: "real \<Rightarrow> u32" where
  "sampleInterval h =
     (let v = (word_of_int \<lfloor>h * 1000 / 32\<rfloor> :: u32) in if v < 5 then 5 else v)"

text \<open>
  The body of \<open>if(currentTime - lastSampleTime >= sampleInterval)\<close>, in two parts:
  from the reading of the channels to the advanced cursor (lines 170-222), and the whole
  body.
\<close>

definition sample_and_trigger :: "TickInput \<Rightarrow> ScopeState \<Rightarrow> ScopeState option" where
  "sample_and_trigger inp s =
     do {
       s1 \<leftarrow> read_channels inp [0..<4] s;
       s2 \<leftarrow> trigger_logic (micros inp) s1;
       Some (advance_cursor (auto_trigger (micros inp) s2))
     }"

definition acquisition_tick :: "TickInput \<Rightarrow> ScopeState \<Rightarrow> ScopeState option" where
  "acquisition_tick inp s =
     do {
       s3 \<leftarrow> sample_and_trigger inp s;
       s4 \<leftarrow> extract_snapshot s3;
       Some (s4\<lparr>lastSampleTime := micros inp\<rparr>)
     }"

definition acquisition_iteration :: "TickInput \<Rightarrow> ScopeState \<Rightarrow> ScopeState option" where
  "acquisition_iteration inp s =
     (if \<not> running (config s) \<and> triggerMode (config s) \<noteq> TRIG_SINGLE then Some s
      else if micros inp - lastSampleTime s \<ge> sampleInterval (hScale (config s))
      then acquisition_tick inp s
      else Some s)"

text \<open>Reading one entry of the ring and of the display buffer.\<close>

definition ring_sample :: "nat \<Rightarrow> nat \<Rightarrow> ScopeState \<Rightarrow> u16" where
  "ring_sample ch i s = sampleBuffer s ! ch ! i"

definition display_sample :: "nat \<Rightarrow> nat \<Rightarrow> ScopeState \<Rightarrow> u16" where
  "display_sample ch i s = displayBuffer s ! ch ! i"

text \<open>Finitely many successive passes of the loop, one input per pass.\<close>

fun acquisition_run :: "TickInput list \<Rightarrow> ScopeState \<Rightarrow> ScopeState option" where
  "acquisition_run [] s = Some s"
| "acquisition_run (inp # inps) s =
     do { s' \<leftarrow> acquisition_iteration inp s; acquisition_run inps s' }"

section \<open>Start-up values and the command adapter\<close>

definition initial_config :: OscilloscopeConfig where
  "initial_config =
     \<lparr>channelEnabled = [True, False, False, False],
      vScale = [100, 100, 100, 100],
      position = [0, 0, 0, 0],
      coupling = [COUPLING_DC, COUPLING_DC, COUPLING_DC, COUPLING_DC],
      hScale = 0.5,
      triggerChannel = 1,
      triggerLevel = 30,
      triggerMode = TRIG_AUTO,
      triggerSlope = TRIG_RISING,
      running = True,
      autosetRequested = False,
      autoTriggerTimeout = 100000,
      lastTriggerTime = 0\<rparr>"

text \<open>
  The globals are zero-initialised; \<open>t0\<close> is the value of \<open>micros()\<close> when
  \<open>acquisitionTask\<close> starts.
\<close>

definition initial_state :: "u32 \<Rightarrow> ScopeState" where
  "initial_state t0 =
     \<lparr>config = initial_config,
      sampleBuffer = replicate 4 (replicate BUFFER_SIZE 0),
      displayBuffer = replicate 4 (replicate DISPLAY_SAMPLES 0),
      bufferIndex = 0,
      triggerIndex = 0,
      bufferReady = False,
      triggered = False,
      lastSampleTime = 0,
      autoTriggerStart = t0,
      waitingForTrigger = False\<rparr>"

text \<open>
  The handlers of \<open>processSerialCommands\<close> are modelled from the point where the
  Arduino \<open>String\<close> library has split the command: the results of \<open>toInt()\<close>,
  \<open>toFloat()\<close> and \<open>substring\<close> are their parameters.  A handler returns the new
  configuration and the lines it prints; a printed line is a list of pieces, so that no
  number formatting has to be modelled.
\<close>

datatype piece = Lit string | Num int | Dec1 real

type_synonym serial_line = "piece list"

definition channel_cmd :: "int \<Rightarrow> bool \<Rightarrow> OscilloscopeConfig
    \<Rightarrow> (OscilloscopeConfig \<times> serial_line list) option" where
  "channel_cmd ch on cfg =
     (if ch \<ge> 0 \<and> ch < 4 then
        do {
          en \<leftarrow> arr_set (channelEnabled cfg) ch on;
          Some (cfg\<lparr>channelEnabled := en\<rparr>,
                [[Lit ''Channel '', Num (ch + 1),
                  Lit (if on then '' enabled'' else '' disabled'')]])
        }
      else Some (cfg, []))"

definition vScaleValues :: "u16 list" where
  "vScaleValues = [5, 10, 20, 50, 100, 200, 500, 1000, 2000]"

fun validScale :: "u16 list \<Rightarrow> int \<Rightarrow> bool" where
  "validScale [] scale = False"
| "validScale (v # vs) scale = (if uint v = scale then True else validScale vs scale)"

definition parseVScale :: "int \<Rightarrow> int \<Rightarrow> OscilloscopeConfig
    \<Rightarrow> (OscilloscopeConfig \<times> serial_line list) option" where
  "parseVScale ch scale cfg =
     (if ch \<ge> 0 \<and> ch < 4 then
        if validScale vScaleValues scale then
          do {
            vs \<leftarrow> arr_set (vScale cfg) ch (word_of_int scale);
            Some (cfg\<lparr>vScale := vs\<rparr>,
                  [[Lit ''CH'', Num (ch + 1), Lit '' voltage scale: '', Num scale,
                    Lit ''mV/div'']])
          }
        else Some (cfg, [[Lit ''Invalid voltage scale. Valid: 5,10,20,50,100,200,500,1000,2000'']])
      else Some (cfg, []))"

definition trigger_cmd :: "int \<Rightarrow> OscilloscopeConfig
    \<Rightarrow> OscilloscopeConfig \<times> serial_line list" where
  "trigger_cmd ch cfg =
     (if ch \<ge> 1 \<and> ch \<le> 4
      then (cfg\<lparr>triggerChannel := nat ch\<rparr>, [[Lit ''Trigger channel: '', Num ch]])
      else (cfg, []))"

definition tlevel_cmd :: "int \<Rightarrow> OscilloscopeConfig
    \<Rightarrow> OscilloscopeConfig \<times> serial_line list" where
  "tlevel_cmd level cfg =
     (if level \<ge> 0 \<and> level \<le> 3300
      then (cfg\<lparr>triggerLevel := word_of_int level\<rparr>,
            [[Lit ''Trigger level: '', Num level, Lit ''mV'']])
      else (cfg, []))"

text \<open>\<open>parseCoupling\<close> also resets \<open>dcFilter[ch]\<close>, which is outside the model.\<close>

definition parseCoupling :: "int \<Rightarrow> string \<Rightarrow> OscilloscopeConfig
    \<Rightarrow> (OscilloscopeConfig \<times> serial_line list) option" where
  "parseCoupling ch c cfg =
     (if ch \<ge> 0 \<and> ch < 4 then
        if c = ''AC'' then
          do {
            cs \<leftarrow> arr_set (coupling cfg) ch COUPLING_AC;
            Some (cfg\<lparr>coupling := cs\<rparr>, [[Lit ''CH'', Num (ch + 1), Lit '' coupling: AC'']])
          }
        else if c = ''DC'' then
          do {
            cs \<leftarrow> arr_set (coupling cfg) ch COUPLING_DC;
            Some (cfg\<lparr>coupling := cs\<rparr>, [[Lit ''CH'', Num (ch + 1), Lit '' coupling: DC'']])
          }
        else Some (cfg, [[Lit ''Invalid coupling type. Use AC or DC'']])
      else Some (cfg, []))"

definition parsePosition :: "int \<Rightarrow> real \<Rightarrow> OscilloscopeConfig
    \<Rightarrow> (OscilloscopeConfig \<times> serial_line list) option" where
  "parsePosition ch p cfg =
     (if ch \<ge> 0 \<and> ch < 4 \<and> p \<ge> - 3 \<and> p \<le> 3 then
        do {
          ps \<leftarrow> arr_set (position cfg) ch p;
          Some (cfg\<lparr>position := ps\<rparr>,
                [[Lit ''CH'', Num (ch + 1), Lit '' position: '', Dec1 p, Lit '' div'']])
        }
      else Some (cfg, [[Lit ''Invalid position. Must be between -3.0 and +3.0 divisions'']]))"

definition parseTriggerMode :: "string \<Rightarrow> OscilloscopeConfig
    \<Rightarrow> OscilloscopeConfig \<times> serial_line list" where
  "parseTriggerMode m cfg =
     (if m = ''AUTO'' then (cfg\<lparr>triggerMode := TRIG_AUTO\<rparr>, [[Lit ''Trigger mode: AUTO'']])
      else if m = ''NORM'' then
        (cfg\<lparr>triggerMode := TRIG_NORMAL\<rparr>, [[Lit ''Trigger mode: NORMAL'']])
      else if m = ''SINGLE'' then
        (cfg\<lparr>triggerMode := TRIG_SINGLE\<rparr>, [[Lit ''Trigger mode: SINGLE'']])
      else (cfg, [[Lit ''Invalid trigger mode. Use AUTO, NORM, or SINGLE'']]))"

definition parseTriggerSlope :: "string \<Rightarrow> OscilloscopeConfig
    \<Rightarrow> OscilloscopeConfig \<times> serial_line list" where
  "parseTriggerSlope sl cfg =
     (if sl = ''RISE'' then
        (cfg\<lparr>triggerSlope := TRIG_RISING\<rparr>, [[Lit ''Trigger slope: RISING'']])
      else if sl = ''FALL'' then
        (cfg\<lparr>triggerSlope := TRIG_FALLING\<rparr>, [[Lit ''Trigger slope: FALLING'']])
      else (cfg, [[Lit ''Invalid trigger slope. Use RISE or FALL'']]))"

definition run_cmd :: "OscilloscopeConfig \<Rightarrow> OscilloscopeConfig \<times> serial_line list" where
  "run_cmd cfg = (cfg\<lparr>running := True\<rparr>, [[Lit ''Acquisition started'']])"

definition stop_cmd :: "OscilloscopeConfig \<Rightarrow> OscilloscopeConfig \<times> serial_line list" where
  "stop_cmd cfg = (cfg\<lparr>running := False\<rparr>, [[Lit ''Acquisition stopped'']])"

text \<open>
  \<open>AUTOSET\<close> sets \<open>autosetRequested\<close>; the next pass of \<open>loop()\<close> calls
  \<open>performAutoset\<close> and clears the request.  The two steps are one step here, and the
  status lines that \<open>performAutoset\<close> prints are left out.
\<close>

definition performAutoset :: "OscilloscopeConfig \<Rightarrow> OscilloscopeConfig option" where
  "performAutoset cfg =
     do {
       e0 \<leftarrow> arr_set (channelEnabled cfg) 0 True;
       e1 \<leftarrow> arr_set e0 1 False;
       e2 \<leftarrow> arr_set e1 2 False;
       e3 \<leftarrow> arr_set e2 3 False;
       v0 \<leftarrow> arr_set (vScale cfg) 0 100;
       v1 \<leftarrow> arr_set v0 1 100;
       v2 \<leftarrow> arr_set v1 2 100;
       v3 \<leftarrow> arr_set v2 3 100;
       p0 \<leftarrow> arr_set (position cfg) 0 0;
       p1 \<leftarrow> arr_set p0 1 0;
       p2 \<leftarrow> arr_set p1 2 0;
       p3 \<leftarrow> arr_set p2 3 0;
       Some (cfg\<lparr>channelEnabled := e3, vScale := v3, hScale := 50, position := p3,
                  triggerChannel := 1, triggerLevel := 1650, triggerMode := TRIG_AUTO,
                  triggerSlope := TRIG_RISING, running := True, autosetRequested := False\<rparr>)
     }"

text \<open>
  The commands that change the configuration, after parsing, and their effect on it.
\<close>

datatype command =
    Channel int bool
  | VScale int int
  | Trigger int
  | TLevel int
  | Coupling int string
  | Position int real
  | TMode string
  | TSlope string
  | Run
  | Stop
  | Autoset

fun apply_command :: "command \<Rightarrow> OscilloscopeConfig \<Rightarrow> OscilloscopeConfig option" where
  "apply_command (Channel ch on) cfg = map_option fst (channel_cmd ch on cfg)"
| "apply_command (VScale ch scale) cfg = map_option fst (parseVScale ch scale cfg)"
| "apply_command (Trigger ch) cfg = Some (fst (trigger_cmd ch cfg))"
| "apply_command (TLevel level) cfg = Some (fst (tlevel_cmd level cfg))"
| "apply_command (Coupling ch c) cfg = map_option fst (parseCoupling ch c cfg)"
| "apply_command (Position ch p) cfg = map_option fst (parsePosition ch p cfg)"
| "apply_command (TMode m) cfg = Some (fst (parseTriggerMode m cfg))"
| "apply_command (TSlope sl) cfg = Some (fst (parseTriggerSlope sl cfg))"
| "apply_command Run cfg = Some (fst (run_cmd cfg))"
| "apply_command Stop cfg = Some (fst (stop_cmd cfg))"
| "apply_command Autoset cfg = performAutoset cfg"

text \<open>
  The states the device can be in: the start-up state, followed by passes of the
  acquisition loop on arbitrary readings and by commands.  The command adapter runs on
  the other core; its writes are placed between two passes of the loop.  \<open>HSCALE\<close>
  compares floating-point numbers with a tolerance and is not modelled as a function;
  the last rule lets it store any time base, which is more than it can do.
\<close>

inductive reachable :: "ScopeState \<Rightarrow> bool" where
  start: "reachable (initial_state t0)"
| iteration: "reachable s \<Longrightarrow> acquisition_iteration inp s = Some s' \<Longrightarrow> reachable s'"
| command: "reachable s \<Longrightarrow> apply_command c (config s) = Some cfg
     \<Longrightarrow> reachable (s\<lparr>config := cfg\<rparr>)"
| time_base: "reachable s \<Longrightarrow> reachable (s\<lparr>config := (config s)\<lparr>hScale := h\<rparr>\<rparr>)"

section \<open>Well-formed states\<close>

definition config_ok :: "OscilloscopeConfig \<Rightarrow> bool" where
  "config_ok cfg \<longleftrightarrow>
     length (channelEnabled cfg) = 4 \<and> length (vScale cfg) = 4 \<and>
     length (position cfg) = 4 \<and> length (coupling cfg) = 4 \<and>
     1 \<le> triggerChannel cfg \<and> triggerChannel cfg \<le> 4"

definition buffers_ok :: "ScopeState \<Rightarrow> bool" where
  "buffers_ok s \<longleftrightarrow>
     length (sampleBuffer s) = 4 \<and> (\<forall>ch < 4. length (sampleBuffer s ! ch) = BUFFER_SIZE) \<and>
     length (displayBuffer s) = 4 \<and> (\<forall>ch < 4. length (displayBuffer s ! ch) = DISPLAY_SAMPLES)"

definition state_ok :: "ScopeState \<Rightarrow> bool" where
  "state_ok s \<longleftrightarrow> config_ok (config s) \<and> buffers_ok s \<and> bufferIndex s < BUFFER_SIZE"

text \<open>The sample that a tick stores for channel \<open>ch\<close>, and the ring after the tick.\<close>

definition stored_sample :: "TickInput \<Rightarrow> OscilloscopeConfig \<Rightarrow> nat \<Rightarrow> u16" where
  "stored_sample inp cfg ch =
     (if coupling cfg ! ch = COUPLING_AC then acOut inp ch else adcRaw inp ch)"

definition ring_after :: "TickInput \<Rightarrow> ScopeState \<Rightarrow> u16 list list" where
  "ring_after inp s =
     map (\<lambda>ch. (sampleBuffer s ! ch)[bufferIndex s := stored_sample inp (config s) ch]) [0..<4]"

text \<open>The window that \<open>copyToDisplayBuffer\<close> takes from the ring for one channel.\<close>

definition window :: "u16 list \<Rightarrow> int \<Rightarrow> u16 list" where
  "window row start =
     map (\<lambda>i. row ! nat ((start + int i) mod int BUFFER_SIZE)) [0..<DISPLAY_SAMPLES]"

definition snapshot :: "ScopeState \<Rightarrow> u16 list list" where
  "snapshot s = map (\<lambda>ch. window (sampleBuffer s ! ch) (startIndex (triggerIndex s))) [0..<4]"

text \<open>
  The same pass without the bounds checks, as total functions on the state.  They are
  shown below to agree with the checked functions on every well-formed state, and serve
  only to compute with.
\<close>

definition edge_detected :: "ScopeState \<Rightarrow> bool" where
  "edge_detected s \<longleftrightarrow>
     (triggerMode (config s) \<noteq> TRIG_AUTO \<or> \<not> waitingForTrigger s) \<and>
     bufferIndex s > 2 \<and>
     channelEnabled (config s) ! (triggerChannel (config s) - 1) \<and>
     triggerEvent (triggerSlope (config s))
       (sampleBuffer s ! (triggerChannel (config s) - 1) ! (bufferIndex s - 1))
       (sampleBuffer s ! (triggerChannel (config s) - 1) ! bufferIndex s)
       (triggerADC (triggerLevel (config s)))"

definition detect :: "u32 \<Rightarrow> ScopeState \<Rightarrow> ScopeState" where
  "detect currentTime s =
     (if edge_detected s
      then s\<lparr>triggered := True, triggerIndex := bufferIndex s,
              waitingForTrigger := False, autoTriggerStart := currentTime\<rparr>
      else s)"

definition snapshot_due :: "ScopeState \<Rightarrow> bool" where
  "snapshot_due s \<longleftrightarrow>
     triggered s \<and> postTriggerSamples (bufferIndex s) (triggerIndex s) \<ge> DISPLAY_SAMPLES div 2"

definition extracted :: "ScopeState \<Rightarrow> ScopeState" where
  "extracted s =
     (if snapshot_due s
      then s\<lparr>config := (if triggerMode (config s) = TRIG_SINGLE
                           then (config s)\<lparr>running := False\<rparr> else config s),
              displayBuffer := snapshot s, bufferReady := True,
              triggered := False, waitingForTrigger := True\<rparr>
      else s)"

definition next_cursor :: "nat \<Rightarrow> nat" where
  "next_cursor b = (let b' = (b + 1) mod 65536 in if b' \<ge> BUFFER_SIZE then 0 else b')"

definition at_cursor :: "TickInput \<Rightarrow> ScopeState \<Rightarrow> ScopeState" where
  "at_cursor inp s =
     advance_cursor (auto_trigger (micros inp)
       (detect (micros inp) (s\<lparr>sampleBuffer := ring_after inp s\<rparr>)))"

definition after_tick :: "TickInput \<Rightarrow> ScopeState \<Rightarrow> ScopeState" where
  "after_tick inp s = (extracted (at_cursor inp s))\<lparr>lastSampleTime := micros inp\<rparr>"

definition iterated :: "TickInput \<Rightarrow> ScopeState \<Rightarrow> ScopeState" where
  "iterated inp s =
     (if \<not> running (config s) \<and> triggerMode (config s) \<noteq> TRIG_SINGLE then s
      else if micros inp - lastSampleTime s \<ge> sampleInterval (hScale (config s))
      then after_tick inp s else s)"

section \<open>Concrete states and inputs used below\<close>

text \<open>A reading with the same value on all four converters.\<close>

definition reading :: "u32 \<Rightarrow> u16 \<Rightarrow> TickInput" where
  "reading t v = \<lparr>micros = t, adcRaw = (\<lambda>ch. v), acOut = (\<lambda>ch. 2048)\<rparr>"

text \<open>
  NORMAL mode, rising slope, trigger level 1651 mV (raw threshold 2048); channel 1 holds
  2000 at ring position 9 and 2100 at the cursor position 10.
\<close>

definition scenario_2048 :: ScopeState where
  "scenario_2048 =
     (initial_state 0)
       \<lparr>config := initial_config\<lparr>triggerLevel := 1651, triggerMode := TRIG_NORMAL\<rparr>,
        sampleBuffer := (replicate 4 (replicate BUFFER_SIZE 0))
           [0 := (replicate BUFFER_SIZE 0)[9 := 2000, 10 := 2100]],
        bufferIndex := 10\<rparr>"

text \<open>
  A trigger taken at ring position 100 is pending; channel 1 holds 7 at the trigger
  position.  In \<open>capture_due\<close> the cursor has reached 228, in \<open>capture_next\<close> it is one
  position short of it.
\<close>

definition capture_due :: ScopeState where
  "capture_due =
     (initial_state 0)
       \<lparr>config := initial_config\<lparr>triggerMode := TRIG_NORMAL\<rparr>,
        sampleBuffer := (replicate 4 (replicate BUFFER_SIZE 0))
           [0 := (replicate BUFFER_SIZE 0)[100 := 7]],
        bufferIndex := 228, triggerIndex := 100, triggered := True\<rparr>"

definition capture_next :: ScopeState where
  "capture_next = capture_due\<lparr>bufferIndex := 227\<rparr>"

text \<open>
  NORMAL mode with the start-up trigger (channel 1, 30 mV, rising); the cursor is at ring
  position 2, where channel 1 holds 4000 after 0 at position 1.
\<close>

definition edge_at_2 :: ScopeState where
  "edge_at_2 =
     (initial_state 0)
       \<lparr>config := initial_config\<lparr>triggerMode := TRIG_NORMAL\<rparr>,
        sampleBuffer := (replicate 4 (replicate BUFFER_SIZE 0))
           [0 := (replicate BUFFER_SIZE 0)[2 := 4000]],
        bufferIndex := 2\<rparr>"

text \<open>
  AUTO mode with the start-up configuration: a trigger taken at ring position 3 at time
  100115 is pending and the cursor stands at 130, so that the next tick completes the
  128 samples and extracts the snapshot.  The state is reached from start-up by three
  ticks reading 0, a fourth tick at time 100115 (the timeout has expired) and 126 more
  ticks reading 0.
\<close>

definition auto_capture_next :: ScopeState where
  "auto_capture_next =
     (initial_state 0)
       \<lparr>bufferIndex := 130, triggerIndex := 3, triggered := True,
        lastSampleTime := 102005, autoTriggerStart := 100115\<rparr>"

text \<open>
  AUTO mode with the trigger-source channel 1 switched off and channel 2 on; the cursor
  stands at 7 and no trigger is pending.
\<close>

definition auto_idle_disabled :: ScopeState where
  "auto_idle_disabled =
     (initial_state 0)
       \<lparr>config := initial_config\<lparr>channelEnabled := [False, True, False, False]\<rparr>,
        bufferIndex := 7, lastSampleTime := 105\<rparr>"

text \<open>
  The state left by the extraction in AUTO mode (ready, not triggered, waiting), with
  the cursor at 131.
\<close>

definition auto_after_capture :: ScopeState where
  "auto_after_capture =
     auto_capture_next\<lparr>bufferIndex := 131, bufferReady := True, triggered := False,
       lastSampleTime := 102020, waitingForTrigger := True\<rparr>"

text \<open>
  The start-up state after the commands \<open>TMODE SINGLE\<close> and \<open>STOP\<close>.
\<close>

definition single_stopped :: ScopeState where
  "single_stopped =
     (initial_state 0)
       \<lparr>config := fst (stop_cmd (fst (parseTriggerMode ''SINGLE'' initial_config)))\<rparr>"

text \<open>
  SINGLE mode, stopped by a first capture (ready, not running) whose display rows hold
  1111 at index 64; a second trigger, taken at ring position 131 where the channels hold
  4000, is pending and the cursor stands at 258.  The state is reached from start-up by
  the command \<open>TMODE SINGLE\<close> and 258 ticks: all converters read 1111 on the
  fourth tick, 4000 on the 132nd, and 0 on the others.
\<close>

definition single_second_capture :: ScopeState where
  "single_second_capture =
     (initial_state 0)
       \<lparr>config := initial_config\<lparr>triggerMode := TRIG_SINGLE, running := False\<rparr>,
        sampleBuffer := replicate 4 ((replicate BUFFER_SIZE 0)[3 := 1111, 131 := 4000]),
        displayBuffer := replicate 4 ((replicate DISPLAY_SAMPLES 0)[64 := 1111]),
        bufferIndex := 258, triggerIndex := 131, bufferReady := True, triggered := True,
        lastSampleTime := 3870, autoTriggerStart := 1980, waitingForTrigger := False\<rparr>"

text \<open>
  The state left by the extraction in AUTO mode after the command \<open>TMODE NORM\<close>: the
  same ring, cursor and flags, in NORMAL mode.
\<close>

definition norm_after_capture :: ScopeState where
  "norm_after_capture =
     auto_after_capture\<lparr>config := fst (parseTriggerMode ''NORM'' (config auto_after_capture))\<rparr>"

text \<open>
  A steady signal after an edge.  From start-up (AUTO mode, start-up configuration) all
  converters read 0 on the first three ticks and 4000 on every tick from the fourth on.
  The fourth tick (cursor 3, time 60) takes an edge trigger.  After \<open>m\<close> ticks reading
  4000 the ring rows hold 4000 at the positions 3 to \<open>m + 2\<close> and their start-up value
  0 everywhere else, and the cursor stands at \<open>m + 3\<close>.  In \<open>steady_capture_next\<close> 127
  such ticks have passed: the cursor is at 130 and the next tick completes the 128
  samples.
\<close>

definition steady_row :: "nat \<Rightarrow> u16 list" where
  "steady_row m = replicate 3 0 @ replicate m 4000 @ replicate (509 - m) 0"

definition steady_state :: "nat \<Rightarrow> ScopeState" where
  "steady_state m =
     (initial_state 0)
       \<lparr>sampleBuffer := replicate 4 (steady_row m),
        bufferIndex := 3 + m, triggerIndex := 3, triggered := True,
        lastSampleTime := 45 + 15 * of_nat m, autoTriggerStart := 60\<rparr>"

definition steady_capture_next :: ScopeState where
  "steady_capture_next = steady_state 127"

section \<open>The checked functions on well-formed states\<close>

lemma arr_get_Some [simp]: "0 \<le> i \<Longrightarrow> i < int (length xs) \<Longrightarrow> arr_get xs i = Some (xs ! nat i)"
  by (simp add: arr_get_def)

lemma arr_set_Some [simp]:
  "0 \<le> i \<Longrightarrow> i < int (length xs) \<Longrightarrow> arr_set xs i v = Some (xs[nat i := v])"
  by (simp add: arr_set_def)

lemma arr2_get_Some:
  "r < length xss \<Longrightarrow> 0 \<le> i \<Longrightarrow> i < int (length (xss ! r))
   \<Longrightarrow> arr2_get xss (int r) i = Some (xss ! r ! nat i)"
  by (simp add: arr2_get_def)

lemma arr2_set_Some:
  "r < length xss \<Longrightarrow> 0 \<le> i \<Longrightarrow> i < int (length (xss ! r))
   \<Longrightarrow> arr2_set xss (int r) i v = Some (xss[r := (xss ! r)[nat i := v]])"
  by (simp add: arr2_set_def)

lemma sample_channel_closed:
  assumes "ch < 4" "length (coupling (config s)) = 4" "length (sampleBuffer s) = 4"
    "bufferIndex s < length (sampleBuffer s ! ch)"
  shows "sample_channel inp ch s =
     Some (s\<lparr>sampleBuffer := (sampleBuffer s)
        [ch := (sampleBuffer s ! ch)[bufferIndex s := stored_sample inp (config s) ch]]\<rparr>)"
  using assms by (simp add: sample_channel_def arr2_set_Some stored_sample_def)

lemma read_channels_general:
  assumes "length (coupling (config s)) = 4" "length (sampleBuffer s) = 4"
    "\<forall>ch < 4. bufferIndex s < length (sampleBuffer s ! ch)" "\<forall>ch \<in> set chs. ch < 4"
  shows "read_channels inp chs s =
     Some (s\<lparr>sampleBuffer := map (\<lambda>ch. if ch \<in> set chs
        then (sampleBuffer s ! ch)[bufferIndex s := stored_sample inp (config s) ch]
        else sampleBuffer s ! ch) [0..<4]\<rparr>)"
  using assms
proof (induction chs arbitrary: s)
  case Nil
  then have "map (\<lambda>ch. sampleBuffer s ! ch) [0..<4] = sampleBuffer s"
    using map_nth [of "sampleBuffer s"] by simp
  then show ?case by simp
next
  case (Cons c chs)
  let ?s' = "s\<lparr>sampleBuffer := (sampleBuffer s)
        [c := (sampleBuffer s ! c)[bufferIndex s := stored_sample inp (config s) c]]\<rparr>"
  from Cons.prems have c: "c < 4" by simp
  have step: "sample_channel inp c s = Some ?s'"
    using Cons.prems c by (simp add: sample_channel_closed)
  have "read_channels inp chs ?s' =
     Some (?s'\<lparr>sampleBuffer := map (\<lambda>ch. if ch \<in> set chs
        then (sampleBuffer ?s' ! ch)[bufferIndex ?s' := stored_sample inp (config ?s') ch]
        else sampleBuffer ?s' ! ch) [0..<4]\<rparr>)"
    using Cons.prems by (intro Cons.IH) (auto simp: nth_list_update)
  moreover have "map (\<lambda>ch. if ch \<in> set chs
        then (sampleBuffer ?s' ! ch)[bufferIndex ?s' := stored_sample inp (config ?s') ch]
        else sampleBuffer ?s' ! ch) [0..<4]
     = map (\<lambda>ch. if ch \<in> set (c # chs)
        then (sampleBuffer s ! ch)[bufferIndex s := stored_sample inp (config s) ch]
        else sampleBuffer s ! ch) [0..<4]"
    using Cons.prems(2) c by (auto simp: nth_list_update stored_sample_def)
  ultimately show ?case using step by simp
qed

lemma read_channels_closed:
  assumes "state_ok s"
  shows "read_channels inp [0..<4] s = Some (s\<lparr>sampleBuffer := ring_after inp s\<rparr>)"
proof -
  from assms have "length (coupling (config s)) = 4" "length (sampleBuffer s) = 4"
    "\<forall>ch < 4. bufferIndex s < length (sampleBuffer s ! ch)"
    by (simp_all add: state_ok_def config_ok_def buffers_ok_def)
  then have "read_channels inp [0..<4] s =
     Some (s\<lparr>sampleBuffer := map (\<lambda>ch. if ch \<in> set [0..<4]
        then (sampleBuffer s ! ch)[bufferIndex s := stored_sample inp (config s) ch]
        else sampleBuffer s ! ch) [0..<4]\<rparr>)"
    by (intro read_channels_general) auto
  then show ?thesis by (simp add: ring_after_def cong: map_cong)
qed


lemma startIndex_nonneg: "0 \<le> startIndex trig"
  by (simp add: startIndex_def DISPLAY_SAMPLES_def BUFFER_SIZE_def)

lemma c_rem_nonneg: "0 \<le> a \<Longrightarrow> 0 < b \<Longrightarrow> c_rem a b = a mod b"
  by (simp add: c_rem_def)

lemma copy_sample_closed:
  assumes "ch < 4" "length (sampleBuffer s) = 4" "length (sampleBuffer s ! ch) = BUFFER_SIZE"
    "length (displayBuffer s) = 4" "i < length (displayBuffer s ! ch)" "0 \<le> start"
  shows "copy_sample start ch i s =
     Some (s\<lparr>displayBuffer := (displayBuffer s)
        [ch := (displayBuffer s ! ch)
           [i := sampleBuffer s ! ch ! nat ((start + int i) mod int BUFFER_SIZE)]]\<rparr>)"
proof -
  have "0 \<le> (start + int i) mod int BUFFER_SIZE" "(start + int i) mod int BUFFER_SIZE < int BUFFER_SIZE"
    by (simp_all add: BUFFER_SIZE_def)
  then show ?thesis
    using assms by (simp add: copy_sample_def c_rem_nonneg arr2_get_Some arr2_set_Some BUFFER_SIZE_def)
qed

lemma copy_row_general:
  assumes "ch < 4" "length (sampleBuffer s) = 4" "length (sampleBuffer s ! ch) = BUFFER_SIZE"
    "length (displayBuffer s) = 4" "\<forall>i \<in> set js. i < length (displayBuffer s ! ch)" "0 \<le> start"
  shows "copy_row start ch js s =
     Some (s\<lparr>displayBuffer := (displayBuffer s)
        [ch := map (\<lambda>j. if j \<in> set js
             then sampleBuffer s ! ch ! nat ((start + int j) mod int BUFFER_SIZE)
             else displayBuffer s ! ch ! j) [0..<length (displayBuffer s ! ch)]]\<rparr>)"
  using assms
proof (induction js arbitrary: s)
  case Nil
  then show ?case by (simp add: map_nth)
next
  case (Cons i js)
  define src where "src j = sampleBuffer s ! ch ! nat ((start + int j) mod int BUFFER_SIZE)" for j
  define row where "row = displayBuffer s ! ch"
  define s' where "s' = s\<lparr>displayBuffer := (displayBuffer s)[ch := row[i := src i]]\<rparr>"
  have step: "copy_sample start ch i s = Some s'"
    using Cons.prems by (simp add: copy_sample_closed s'_def row_def src_def)
  have ih: "copy_row start ch js s' =
     Some (s'\<lparr>displayBuffer := (displayBuffer s')
        [ch := map (\<lambda>j. if j \<in> set js
             then sampleBuffer s' ! ch ! nat ((start + int j) mod int BUFFER_SIZE)
             else displayBuffer s' ! ch ! j) [0..<length (displayBuffer s' ! ch)]]\<rparr>)"
    using Cons.prems by (intro Cons.IH) (auto simp: s'_def row_def)
  have eq: "map (\<lambda>j. if j \<in> set js
             then sampleBuffer s' ! ch ! nat ((start + int j) mod int BUFFER_SIZE)
             else displayBuffer s' ! ch ! j) [0..<length (displayBuffer s' ! ch)]
     = map (\<lambda>j. if j \<in> set (i # js) then src j else row ! j) [0..<length row]"
    using Cons.prems by (auto simp: nth_list_update s'_def row_def src_def)
  have upd: "s'\<lparr>displayBuffer := (displayBuffer s')[ch := r]\<rparr>
     = s\<lparr>displayBuffer := (displayBuffer s)[ch := r]\<rparr>" for r
    by (simp add: s'_def)
  have "copy_row start ch (i # js) s = copy_row start ch js s'"
    by (simp add: step)
  also have "\<dots> = Some (s\<lparr>displayBuffer := (displayBuffer s)
        [ch := map (\<lambda>j. if j \<in> set (i # js) then src j else row ! j) [0..<length row]]\<rparr>)"
    unfolding ih eq upd ..
  finally show ?case unfolding src_def row_def .
qed

lemma copy_row_closed:
  assumes "ch < 4" "length (sampleBuffer s) = 4" "length (sampleBuffer s ! ch) = BUFFER_SIZE"
    "length (displayBuffer s) = 4" "length (displayBuffer s ! ch) = DISPLAY_SAMPLES" "0 \<le> start"
  shows "copy_row start ch [0..<DISPLAY_SAMPLES] s =
     Some (s\<lparr>displayBuffer := (displayBuffer s)[ch := window (sampleBuffer s ! ch) start]\<rparr>)"
proof -
  have "copy_row start ch [0..<DISPLAY_SAMPLES] s =
     Some (s\<lparr>displayBuffer := (displayBuffer s)
        [ch := map (\<lambda>j. if j \<in> set [0..<DISPLAY_SAMPLES]
             then sampleBuffer s ! ch ! nat ((start + int j) mod int BUFFER_SIZE)
             else displayBuffer s ! ch ! j) [0..<length (displayBuffer s ! ch)]]\<rparr>)"
    using assms by (intro copy_row_general) auto
  moreover have "map (\<lambda>j. if j \<in> set [0..<DISPLAY_SAMPLES]
             then sampleBuffer s ! ch ! nat ((start + int j) mod int BUFFER_SIZE)
             else displayBuffer s ! ch ! j) [0..<length (displayBuffer s ! ch)]
     = window (sampleBuffer s ! ch) start"
    using assms(5) by (simp add: window_def)
  ultimately show ?thesis by simp
qed

lemma copy_rows_general:
  assumes "length (sampleBuffer s) = 4" "\<forall>ch < 4. length (sampleBuffer s ! ch) = BUFFER_SIZE"
    "length (displayBuffer s) = 4" "\<forall>ch < 4. length (displayBuffer s ! ch) = DISPLAY_SAMPLES"
    "\<forall>ch \<in> set chs. ch < 4" "0 \<le> start"
  shows "copy_rows start chs s =
     Some (s\<lparr>displayBuffer := map (\<lambda>ch. if ch \<in> set chs
        then window (sampleBuffer s ! ch) start else displayBuffer s ! ch) [0..<4]\<rparr>)"
  using assms
proof (induction chs arbitrary: s)
  case Nil
  then have "map (\<lambda>ch. displayBuffer s ! ch) [0..<4] = displayBuffer s"
    using map_nth [of "displayBuffer s"] by simp
  then show ?case by simp
next
  case (Cons c chs)
  define s' where "s' = s\<lparr>displayBuffer := (displayBuffer s)[c := window (sampleBuffer s ! c) start]\<rparr>"
  from Cons.prems have c: "c < 4" by simp
  have step: "copy_row start c [0..<DISPLAY_SAMPLES] s = Some s'"
    using Cons.prems c by (simp add: copy_row_closed s'_def)
  have ih: "copy_rows start chs s' =
     Some (s'\<lparr>displayBuffer := map (\<lambda>ch. if ch \<in> set chs
        then window (sampleBuffer s' ! ch) start else displayBuffer s' ! ch) [0..<4]\<rparr>)"
    using Cons.prems by (intro Cons.IH) (auto simp: nth_list_update window_def s'_def)
  have eq: "map (\<lambda>ch. if ch \<in> set chs
        then window (sampleBuffer s' ! ch) start else displayBuffer s' ! ch) [0..<4]
     = map (\<lambda>ch. if ch \<in> set (c # chs)
        then window (sampleBuffer s ! ch) start else displayBuffer s ! ch) [0..<4]"
    using Cons.prems(3) c by (auto simp: nth_list_update s'_def)
  have upd: "s'\<lparr>displayBuffer := d\<rparr> = s\<lparr>displayBuffer := d\<rparr>" for d
    by (simp add: s'_def)
  have "copy_rows start (c # chs) s = copy_rows start chs s'"
    by (simp add: step)
  also have "\<dots> = Some (s\<lparr>displayBuffer := map (\<lambda>ch. if ch \<in> set (c # chs)
        then window (sampleBuffer s ! ch) start else displayBuffer s ! ch) [0..<4]\<rparr>)"
    unfolding ih eq upd ..
  finally show ?case .
qed

lemma copyToDisplayBuffer_closed:
  assumes "buffers_ok s"
  shows "copyToDisplayBuffer s = Some (s\<lparr>displayBuffer := snapshot s\<rparr>)"
proof -
  from assms have "copy_rows (startIndex (triggerIndex s)) [0..<4] s =
     Some (s\<lparr>displayBuffer := map (\<lambda>ch. if ch \<in> set [0..<4]
        then window (sampleBuffer s ! ch) (startIndex (triggerIndex s))
        else displayBuffer s ! ch) [0..<4]\<rparr>)"
    by (intro copy_rows_general) (auto simp: buffers_ok_def startIndex_nonneg)
  then show ?thesis by (simp add: copyToDisplayBuffer_def snapshot_def cong: map_cong)
qed


lemma trigger_logic_closed:
  assumes "state_ok s"
  shows "trigger_logic t s = Some (detect t s)"
proof -
  from assms have tc: "1 \<le> triggerChannel (config s)" "triggerChannel (config s) \<le> 4"
    and len: "length (channelEnabled (config s)) = 4" "length (sampleBuffer s) = 4"
    and rows: "\<forall>ch < 4. length (sampleBuffer s ! ch) = BUFFER_SIZE"
    and b: "bufferIndex s < BUFFER_SIZE"
    by (simp_all add: state_ok_def config_ok_def buffers_ok_def)
  from tc have "triggerChannel (config s) - 1 < 4" by arith
  with rows have row: "length (sampleBuffer s ! (triggerChannel (config s) - 1)) = BUFFER_SIZE"
    by blast
  have i: "int (triggerChannel (config s)) - 1 = int (triggerChannel (config s) - 1)"
    using tc by simp
  have en: "arr_get (channelEnabled (config s)) (int (triggerChannel (config s)) - 1)
      = Some (channelEnabled (config s) ! (triggerChannel (config s) - 1))"
    using tc len by (simp add: nat_diff_distrib')
  have cur: "arr2_get (sampleBuffer s) (int (triggerChannel (config s)) - 1) (int (bufferIndex s))
      = Some (sampleBuffer s ! (triggerChannel (config s) - 1) ! bufferIndex s)"
    unfolding i using tc len row b by (simp add: arr2_get_Some del: of_nat_diff)
  have prev: "2 < bufferIndex s \<Longrightarrow>
      arr2_get (sampleBuffer s) (int (triggerChannel (config s)) - 1) (int (bufferIndex s) - 1)
      = Some (sampleBuffer s ! (triggerChannel (config s) - 1) ! (bufferIndex s - 1))"
    unfolding i using tc len row b by (simp add: arr2_get_Some nat_diff_distrib' del: of_nat_diff)
  show ?thesis
    by (simp add: trigger_logic_def detect_def edge_detected_def en cur prev)
qed

lemma extract_snapshot_closed:
  assumes "buffers_ok s"
  shows "extract_snapshot s = Some (extracted s)"
  using assms
  by (simp add: extract_snapshot_def extracted_def snapshot_due_def copyToDisplayBuffer_closed Let_def)

lemma length_ring_after [simp]: "length (ring_after inp s) = 4"
  by (simp add: ring_after_def)

lemma nth_ring_after:
  "ch < 4 \<Longrightarrow> ring_after inp s ! ch
     = (sampleBuffer s ! ch)[bufferIndex s := stored_sample inp (config s) ch]"
  by (simp add: ring_after_def del: upt_Suc)

lemma length_snapshot [simp]: "length (snapshot s) = 4"
  by (simp add: snapshot_def)

lemma nth_snapshot:
  "ch < 4 \<Longrightarrow> snapshot s ! ch = window (sampleBuffer s ! ch) (startIndex (triggerIndex s))"
  by (simp add: snapshot_def del: upt_Suc)

lemma length_window [simp]: "length (window row start) = DISPLAY_SAMPLES"
  by (simp add: window_def)

lemma state_ok_sampled:
  "state_ok s \<Longrightarrow> state_ok (s\<lparr>sampleBuffer := ring_after inp s\<rparr>)"
  by (simp add: state_ok_def buffers_ok_def nth_ring_after)

lemma state_ok_detect: "state_ok s \<Longrightarrow> state_ok (detect t s)"
  by (simp add: state_ok_def buffers_ok_def detect_def)

lemma state_ok_auto_trigger: "state_ok s \<Longrightarrow> state_ok (auto_trigger t s)"
  by (simp add: state_ok_def buffers_ok_def auto_trigger_def)

lemma bufferIndex_advance:
  "bufferIndex s < BUFFER_SIZE \<Longrightarrow>
   bufferIndex (advance_cursor s) = (if bufferIndex s = BUFFER_SIZE - 1 then 0 else bufferIndex s + 1)"
  by (auto simp: advance_cursor_def BUFFER_SIZE_def Let_def)

lemma state_ok_advance: "state_ok s \<Longrightarrow> state_ok (advance_cursor s)"
  by (auto simp: state_ok_def buffers_ok_def advance_cursor_def Let_def BUFFER_SIZE_def)

lemma state_ok_extracted: "state_ok s \<Longrightarrow> state_ok (extracted s)"
  by (simp add: state_ok_def buffers_ok_def extracted_def config_ok_def nth_snapshot)

lemma state_ok_at_cursor: "state_ok s \<Longrightarrow> state_ok (at_cursor inp s)"
  by (simp add: at_cursor_def state_ok_advance state_ok_auto_trigger state_ok_detect state_ok_sampled)

lemma state_ok_after_tick: "state_ok s \<Longrightarrow> state_ok (after_tick inp s)"
  using state_ok_extracted [OF state_ok_at_cursor, of s inp]
  by (simp add: after_tick_def state_ok_def buffers_ok_def)

lemma sample_and_trigger_closed:
  assumes "state_ok s"
  shows "sample_and_trigger inp s = Some (at_cursor inp s)"
  using assms
  by (simp add: sample_and_trigger_def read_channels_closed trigger_logic_closed
      state_ok_sampled at_cursor_def)

lemma acquisition_tick_closed:
  assumes "state_ok s"
  shows "acquisition_tick inp s = Some (after_tick inp s)"
proof -
  have "buffers_ok (at_cursor inp s)"
    using state_ok_at_cursor [OF assms] by (simp add: state_ok_def)
  then show ?thesis
    using assms
    by (simp add: acquisition_tick_def sample_and_trigger_closed extract_snapshot_closed after_tick_def)
qed

lemma unat_triggerADC:
  assumes "unat level \<le> 3300"
  shows "unat (triggerADC level) = unat level * 4095 div 3300"
proof -
  have "unat level * 4095 div 3300 \<le> 3300 * 4095 div 3300"
    using assms by (intro div_le_mono mult_le_mono1)
  then have "unat level * 4095 div 3300 < 2 ^ 16" by simp
  then show ?thesis 
    by (simp add: triggerADC_def unat_of_nat)
qed

lemma state_ok_initial: "state_ok (initial_state t0)"
  by (simp add: state_ok_def config_ok_def buffers_ok_def initial_state_def initial_config_def
      BUFFER_SIZE_def)

lemma state_ok_scenario_2048: "state_ok scenario_2048"
  by (simp add: state_ok_def config_ok_def buffers_ok_def initial_state_def initial_config_def
      BUFFER_SIZE_def scenario_2048_def nth_list_update)

lemma nth_window:
  "i < DISPLAY_SAMPLES \<Longrightarrow> window row start ! i = row ! nat ((start + int i) mod int BUFFER_SIZE)"
  by (simp add: window_def del: upt_Suc)

lemma startIndex_mod:
  assumes "trig < BUFFER_SIZE"
  shows "nat ((startIndex trig + int i) mod int BUFFER_SIZE) = (trig + 448 + i) mod 512"
proof (cases "trig \<ge> 64")
  case True
  then have "startIndex trig + int i = int (trig - 64 + i)"
    by (simp add: startIndex_def DISPLAY_SAMPLES_def)
  then have "nat ((startIndex trig + int i) mod int BUFFER_SIZE) = (trig - 64 + i) mod 512"
    by (simp add: BUFFER_SIZE_def nat_mod_distrib del: of_nat_add of_nat_diff)
  also have "\<dots> = (trig - 64 + i + 512) mod 512" by simp
  also have "trig - 64 + i + 512 = trig + 448 + i" using True by simp
  finally show ?thesis .
next
  case False
  then have "startIndex trig + int i = int (trig + 448 + i)"
    by (simp add: startIndex_def DISPLAY_SAMPLES_def BUFFER_SIZE_def)
  then show ?thesis
    by (simp add: BUFFER_SIZE_def nat_mod_distrib del: of_nat_add)
qed

lemma postTriggerSamples_ring:
  assumes "b < BUFFER_SIZE" "trig < BUFFER_SIZE"
  shows "postTriggerSamples b trig = (b + 512 - trig) mod 512"
proof (cases "b \<ge> trig")
  case True
  then have "(int b - int trig) mod 65536 = int (b - trig)"
    using assms by (simp add: BUFFER_SIZE_def)
  then have "postTriggerSamples b trig = b - trig"
    using True by (simp add: postTriggerSamples_def)
  moreover have "(b + 512 - trig) mod 512 = b - trig"
    using True assms by (simp add: BUFFER_SIZE_def mod_if)
  ultimately show ?thesis by simp
next
  case False
  then have "(int BUFFER_SIZE - int trig + int b) mod 65536 = int (b + 512 - trig)"
    using assms by (simp add: BUFFER_SIZE_def)
  then have "postTriggerSamples b trig = b + 512 - trig"
    using False by (simp add: postTriggerSamples_def)
  moreover have "(b + 512 - trig) mod 512 = b + 512 - trig"
    using False assms by (simp add: BUFFER_SIZE_def)
  ultimately show ?thesis by simp
qed

lemma snapshot_nth:
  assumes "ch < 4" "i < 256" "triggerIndex s < BUFFER_SIZE"
  shows "snapshot s ! ch ! i = sampleBuffer s ! ch ! ((triggerIndex s + 448 + i) mod 512)"
  using assms by (simp add: nth_snapshot nth_window DISPLAY_SAMPLES_def startIndex_mod)

lemma length_snapshot_row: "ch < 4 \<Longrightarrow> length (snapshot s ! ch) = 256"
  by (simp add: nth_snapshot DISPLAY_SAMPLES_def)

lemma at_cursor_fields:
  "displayBuffer (at_cursor inp s) = displayBuffer s"
  "bufferReady (at_cursor inp s) = bufferReady s"
  "config (at_cursor inp s) = config s"
  "sampleBuffer (at_cursor inp s) = ring_after inp s"
  by (simp_all add: at_cursor_def advance_cursor_def auto_trigger_def detect_def Let_def)

lemma extracted_unchanged: "\<not> snapshot_due s \<Longrightarrow> extracted s = s"
  by (simp add: extracted_def)

lemma extracted_fields:
  "bufferIndex (extracted s) = bufferIndex s"
  "triggerIndex (extracted s) = triggerIndex s"
  "sampleBuffer (extracted s) = sampleBuffer s"
  by (simp_all add: extracted_def)

lemmas example_defs = initial_state_def initial_config_def BUFFER_SIZE_def DISPLAY_SAMPLES_def
  reading_def

lemmas tick_defs = after_tick_def at_cursor_def extracted_def snapshot_due_def detect_def
  edge_detected_def auto_trigger_def advance_cursor_def postTriggerSamples_def
  nth_ring_after stored_sample_def triggerEvent_def triggerADC_def Let_def

lemma state_ok_capture_due: "state_ok capture_due"
  by (simp add: state_ok_def config_ok_def buffers_ok_def capture_due_def example_defs
      nth_list_update)

lemma state_ok_capture_next: "state_ok capture_next"
  using state_ok_capture_due by (simp add: state_ok_def config_ok_def buffers_ok_def
      capture_next_def BUFFER_SIZE_def)

lemma capture_next_tick:
  "snapshot_due (at_cursor (reading 1000 0) capture_next)"
  "triggerIndex (at_cursor (reading 1000 0) capture_next) = 100"
  "bufferIndex (at_cursor (reading 1000 0) capture_next) = 228"
  by (simp_all add: tick_defs capture_next_def capture_due_def example_defs)

text \<open>Well-formedness is kept by every command and by every pass of the loop.\<close>

lemma config_ok_apply_command:
  assumes "config_ok cfg"
  shows "\<exists>cfg'. apply_command c cfg = Some cfg' \<and> config_ok cfg'"
proof (cases c)
  case (Channel ch on)
  then show ?thesis using assms by (auto simp: channel_cmd_def config_ok_def)
next
  case (VScale ch scale)
  then show ?thesis using assms by (auto simp: parseVScale_def config_ok_def)
next
  case (Trigger ch)
  then show ?thesis using assms by (auto simp: trigger_cmd_def config_ok_def)
next
  case (TLevel level)
  then show ?thesis using assms by (auto simp: tlevel_cmd_def config_ok_def)
next
  case (Coupling ch cp)
  then show ?thesis using assms by (auto simp: parseCoupling_def config_ok_def)
next
  case (Position ch p)
  then show ?thesis using assms by (auto simp: parsePosition_def config_ok_def)
next
  case (TMode m)
  then show ?thesis using assms by (auto simp: parseTriggerMode_def config_ok_def)
next
  case (TSlope sl)
  then show ?thesis using assms by (auto simp: parseTriggerSlope_def config_ok_def)
next
  case Run
  then show ?thesis using assms by (auto simp: run_cmd_def config_ok_def)
next
  case Stop
  then show ?thesis using assms by (auto simp: stop_cmd_def config_ok_def)
next
  case Autoset
  then show ?thesis using assms by (auto simp: performAutoset_def config_ok_def)
qed

lemma state_ok_config_update:
  "state_ok s \<Longrightarrow> config_ok cfg \<Longrightarrow> state_ok (s\<lparr>config := cfg\<rparr>)"
  by (simp add: state_ok_def buffers_ok_def)

lemma acquisition_iteration_closed:
  assumes "state_ok s"
  shows "acquisition_iteration inp s =
     Some (if \<not> running (config s) \<and> triggerMode (config s) \<noteq> TRIG_SINGLE then s
           else if micros inp - lastSampleTime s \<ge> sampleInterval (hScale (config s))
           then after_tick inp s else s)"
  using assms by (simp add: acquisition_iteration_def acquisition_tick_closed)

lemma state_ok_iteration:
  assumes "state_ok s" "acquisition_iteration inp s = Some s'"
  shows "state_ok s'"
  using assms state_ok_after_tick [of s inp]
  by (auto simp: acquisition_iteration_closed split: if_splits)

lemma reachable_state_ok: "reachable s \<Longrightarrow> state_ok s"
proof (induction rule: reachable.induct)
  case (start t0)
  show ?case by (rule state_ok_initial)
next
  case (iteration s inp s')
  then show ?case by (blast intro: state_ok_iteration)
next
  case (command s c cfg)
  then have "config_ok cfg"
    using config_ok_apply_command [of "config s" c] by (auto simp: state_ok_def)
  with command show ?case by (simp add: state_ok_config_update)
next
  case (time_base s h)
  then show ?case by (simp add: state_ok_def buffers_ok_def config_ok_def)
qed

lemma bufferIndex_after_tick:
  assumes "bufferIndex s < BUFFER_SIZE"
  shows "bufferIndex (after_tick inp s)
     = (if bufferIndex s + 1 = BUFFER_SIZE then 0 else bufferIndex s + 1)"
  using assms
  by (auto simp: after_tick_def extracted_fields at_cursor_def advance_cursor_def auto_trigger_def
      detect_def Let_def BUFFER_SIZE_def)

lemma snapshot_row:
  "ch < 4 \<Longrightarrow> snapshot s ! ch
     = map (\<lambda>i. sampleBuffer s ! ch ! nat ((startIndex (triggerIndex s) + int i) mod 512)) [0..<256]"
  by (simp add: nth_snapshot window_def BUFFER_SIZE_def DISPLAY_SAMPLES_def)

lemma after_tick_display:
  "displayBuffer (after_tick inp s) = displayBuffer s \<or>
   displayBuffer (after_tick inp s) = snapshot (after_tick inp s)"
proof (cases "snapshot_due (at_cursor inp s)")
  case True
  then have "snapshot (after_tick inp s) = snapshot (at_cursor inp s)"
    by (simp add: snapshot_def after_tick_def extracted_def)
  then show ?thesis using True by (simp add: after_tick_def extracted_def)
next
  case False
  then show ?thesis by (simp add: after_tick_def extracted_unchanged at_cursor_fields)
qed

lemma acquisition_iteration_iterated:
  "state_ok s \<Longrightarrow> acquisition_iteration inp s = Some (iterated inp s)"
  by (simp add: acquisition_iteration_closed iterated_def)

lemma state_ok_iterated: "state_ok s \<Longrightarrow> state_ok (iterated inp s)"
  by (simp add: iterated_def state_ok_after_tick)

lemma acquisition_run_closed:
  "state_ok s \<Longrightarrow> acquisition_run inps s = Some (foldl (\<lambda>s inp. iterated inp s) s inps)"
  by (induction inps arbitrary: s) (simp_all add: acquisition_iteration_iterated state_ok_iterated)

lemma sampleInterval_initial: "sampleInterval (1 / 2) = 15"
  by (simp add: sampleInterval_def)

lemma advance_cursor_next: "advance_cursor s = s\<lparr>bufferIndex := next_cursor (bufferIndex s)\<rparr>"
  by (simp add: advance_cursor_def next_cursor_def Let_def)

lemma next_cursor_less: "b < 511 \<Longrightarrow> next_cursor b = b + 1"
  by (simp add: next_cursor_def BUFFER_SIZE_def)

lemma next_cursor_simps:
  "next_cursor 0 = 1" "next_cursor (Suc 0) = 2"
  "numeral n < (511::nat) \<Longrightarrow> next_cursor (numeral n) = numeral n + 1"
  "next_cursor 511 = 0"
  using next_cursor_less [of "numeral n"]
  by (simp_all add: next_cursor_less) (simp add: next_cursor_def BUFFER_SIZE_def)

lemmas eval_defs = iterated_def after_tick_def at_cursor_def extracted_def snapshot_due_def
  detect_def edge_detected_def auto_trigger_def advance_cursor_next next_cursor_simps
  postTriggerSamples_def nth_ring_after stored_sample_def triggerEvent_def triggerADC_def
  sampleInterval_initial ring_sample_def display_sample_def

lemma state_ok_edge_at_2: "state_ok edge_at_2"
  by (simp add: state_ok_def config_ok_def buffers_ok_def edge_at_2_def example_defs
      nth_list_update)

lemma detect_low_cursor: "bufferIndex s \<le> 2 \<Longrightarrow> detect t s = s"
  by (simp add: detect_def edge_detected_def)

lemma after_tick_low_cursor:
  assumes "bufferIndex s \<le> 2" "\<not> triggered s" "triggerMode (config s) \<noteq> TRIG_AUTO"
  shows "\<not> triggered (after_tick inp s)"
  using assms
  by (simp add: after_tick_def at_cursor_def detect_low_cursor auto_trigger_def advance_cursor_next
      extracted_def snapshot_due_def)

lemma post_after_trigger:
  assumes "b < BUFFER_SIZE"
  shows "postTriggerSamples (next_cursor b) b = 1"
proof (cases "b = 511")
  case True
  then show ?thesis by (simp add: next_cursor_simps postTriggerSamples_def BUFFER_SIZE_def)
next
  case False
  then have "next_cursor b = b + 1" using assms by (simp add: next_cursor_less BUFFER_SIZE_def)
  then show ?thesis by (simp add: postTriggerSamples_def)
qed

lemma edge_detected_sampled:
  assumes "state_ok s"
  shows "edge_detected (s\<lparr>sampleBuffer := ring_after inp s\<rparr>) \<longleftrightarrow>
    (triggerMode (config s) \<noteq> TRIG_AUTO \<or> \<not> waitingForTrigger s) \<and> bufferIndex s > 2 \<and>
    channelEnabled (config s) ! (triggerChannel (config s) - 1) \<and>
    triggerEvent (triggerSlope (config s))
      (sampleBuffer s ! (triggerChannel (config s) - 1) ! (bufferIndex s - 1))
      (stored_sample inp (config s) (triggerChannel (config s) - 1))
      (triggerADC (triggerLevel (config s)))"
proof -
  from assms have tc: "triggerChannel (config s) - 1 < 4"
    and rows: "\<forall>ch < 4. length (sampleBuffer s ! ch) = BUFFER_SIZE"
    and b: "bufferIndex s < BUFFER_SIZE"
    by (auto simp: state_ok_def config_ok_def buffers_ok_def)
  from tc rows have row: "length (sampleBuffer s ! (triggerChannel (config s) - 1)) = BUFFER_SIZE"
    by blast
  show ?thesis
    using tc row b by (auto simp: edge_detected_def nth_ring_after)
qed

lemma at_cursor_trigger_now:
  assumes "edge_detected (s\<lparr>sampleBuffer := ring_after inp s\<rparr>) \<or>
     (triggerMode (config s) = TRIG_AUTO \<and> \<not> triggered s \<and>
      autoTriggerTimeout (config s) < micros inp - autoTriggerStart s)"
  shows "triggered (at_cursor inp s)" "triggerIndex (at_cursor inp s) = bufferIndex s"
    "bufferIndex (at_cursor inp s) = next_cursor (bufferIndex s)"
    "autoTriggerStart (at_cursor inp s) = micros inp"
    "edge_detected (s\<lparr>sampleBuffer := ring_after inp s\<rparr>) \<Longrightarrow> \<not> waitingForTrigger (at_cursor inp s)"
  using assms by (auto simp: at_cursor_def advance_cursor_next auto_trigger_def detect_def)

lemma after_tick_trigger_now:
  assumes "bufferIndex s < BUFFER_SIZE"
    and "edge_detected (s\<lparr>sampleBuffer := ring_after inp s\<rparr>) \<or>
     (triggerMode (config s) = TRIG_AUTO \<and> \<not> triggered s \<and>
      autoTriggerTimeout (config s) < micros inp - autoTriggerStart s)"
  shows "triggered (after_tick inp s)" "triggerIndex (after_tick inp s) = bufferIndex s"
    "autoTriggerStart (after_tick inp s) = micros inp"
    "edge_detected (s\<lparr>sampleBuffer := ring_after inp s\<rparr>) \<Longrightarrow> \<not> waitingForTrigger (after_tick inp s)"
proof -
  have "\<not> snapshot_due (at_cursor inp s)"
    using assms by (simp add: snapshot_due_def at_cursor_trigger_now post_after_trigger
        DISPLAY_SAMPLES_def)
  then have "after_tick inp s = (at_cursor inp s)\<lparr>lastSampleTime := micros inp\<rparr>"
    by (simp add: after_tick_def extracted_unchanged)
  then show "triggered (after_tick inp s)" "triggerIndex (after_tick inp s) = bufferIndex s"
    "autoTriggerStart (after_tick inp s) = micros inp"
    "edge_detected (s\<lparr>sampleBuffer := ring_after inp s\<rparr>) \<Longrightarrow> \<not> waitingForTrigger (after_tick inp s)"
    using assms(2) by (simp_all add: at_cursor_trigger_now)
qed

lemma after_tick_triggered_cases:
  assumes "triggered (after_tick inp s)"
  shows "triggered s \<or> edge_detected (s\<lparr>sampleBuffer := ring_after inp s\<rparr>) \<or>
     (triggerMode (config s) = TRIG_AUTO \<and>
      autoTriggerTimeout (config s) < micros inp - autoTriggerStart s)"
  using assms
  by (auto simp: after_tick_def extracted_def at_cursor_def advance_cursor_next auto_trigger_def
      detect_def split: if_splits)

lemma after_tick_pending:
  assumes "triggered s" "\<not> edge_detected (s\<lparr>sampleBuffer := ring_after inp s\<rparr>)"
  shows "triggerIndex (after_tick inp s) = triggerIndex s"
    "autoTriggerStart (after_tick inp s) = autoTriggerStart s"
  using assms
  by (simp_all add: after_tick_def extracted_def at_cursor_def advance_cursor_next auto_trigger_def
      detect_def)

lemma state_ok_auto_capture_next: "state_ok auto_capture_next"
  by (simp add: state_ok_def config_ok_def buffers_ok_def auto_capture_next_def example_defs)

lemma after_tick_auto_waiting:
  assumes "triggerMode (config s) = TRIG_AUTO" "waitingForTrigger s" "\<not> triggered s"
    "\<not> autoTriggerTimeout (config s) < micros inp - autoTriggerStart s"
  shows "\<not> triggered (after_tick inp s)" "waitingForTrigger (after_tick inp s)"
  using assms
  by (simp_all add: after_tick_def extracted_def snapshot_due_def at_cursor_def
      advance_cursor_next auto_trigger_def detect_def edge_detected_def)

lemma reachable_single_stopped: "reachable single_stopped"
proof -
  have "reachable ((initial_state 0)\<lparr>config := fst (parseTriggerMode ''SINGLE'' initial_config)\<rparr>)"
    using reachable.command [OF reachable.start, of "TMode ''SINGLE''" 0]
    by (simp add: initial_state_def)
  from reachable.command [OF this, of Stop]
  show ?thesis by (simp add: single_stopped_def initial_state_def)
qed

text \<open>Commands with a value out of range leave the configuration as it is.\<close>

lemma validScale_iff:
  "validScale vScaleValues scale \<longleftrightarrow>
     scale = 5 \<or> scale = 10 \<or> scale = 20 \<or> scale = 50 \<or> scale = 100 \<or> scale = 200 \<or>
     scale = 500 \<or> scale = 1000 \<or> scale = 2000"
  by (simp add: vScaleValues_def eq_commute)

lemma tlevel_invalid: "\<not> (0 \<le> level \<and> level \<le> 3300) \<Longrightarrow> tlevel_cmd level cfg = (cfg, [])"
  by (simp add: tlevel_cmd_def)

lemma trigger_invalid: "\<not> (1 \<le> ch \<and> ch \<le> 4) \<Longrightarrow> trigger_cmd ch cfg = (cfg, [])"
  by (simp add: trigger_cmd_def)

lemma vscale_invalid_channel:
  "\<not> (0 \<le> c \<and> c < 4) \<Longrightarrow> parseVScale c scale cfg = Some (cfg, [])"
  by (auto simp: parseVScale_def)

lemma vscale_invalid_scale:
  "0 \<le> c \<Longrightarrow> c < 4 \<Longrightarrow> \<not> validScale vScaleValues scale \<Longrightarrow>
   parseVScale c scale cfg =
     Some (cfg, [[Lit ''Invalid voltage scale. Valid: 5,10,20,50,100,200,500,1000,2000'']])"
  by (simp add: parseVScale_def)

lemma position_invalid:
  "\<not> (0 \<le> c \<and> c < 4 \<and> - 3 \<le> p \<and> p \<le> 3) \<Longrightarrow>
   parsePosition c p cfg =
     Some (cfg, [[Lit ''Invalid position. Must be between -3.0 and +3.0 divisions'']])"
  by (auto simp: parsePosition_def)

text \<open>With DC coupling a tick stores the converter reading of the channel unchanged.\<close>

lemma dc_coupling_identity:
  assumes "state_ok s" "ch < 4" "coupling (config s) ! ch = COUPLING_DC"
  shows "\<exists>s'. acquisition_tick inp s = Some s' \<and>
     sampleBuffer s' ! ch ! bufferIndex s = adcRaw inp ch"
proof -
  from assms have "bufferIndex s < length (sampleBuffer s ! ch)"
    by (simp add: state_ok_def buffers_ok_def)
  then have "sampleBuffer (after_tick inp s) ! ch ! bufferIndex s = adcRaw inp ch"
    using assms(2,3)
    by (simp add: after_tick_def extracted_fields at_cursor_fields nth_ring_after stored_sample_def)
  then show ?thesis using assms(1) by (simp add: acquisition_tick_closed)
qed

text \<open>
  When the extraction happens as soon as it is due (128 positions after the trigger),
  the last 64 entries of the window are the ring entries at and ahead of the write
  cursor: they were not written after the trigger but one revolution earlier.
\<close>

lemma window_tail_ahead_of_cursor:
  assumes "triggerIndex s < BUFFER_SIZE" "bufferIndex s = (triggerIndex s + 128) mod 512"
    "ch < 4" "j < 64"
  shows "snapshot s ! ch ! (192 + j) = sampleBuffer s ! ch ! ((bufferIndex s + j) mod 512)"
proof -
  have "triggerIndex s + 448 + (192 + j) = (triggerIndex s + 128 + j) + 512"
    by simp
  then have "(triggerIndex s + 448 + (192 + j)) mod 512 = (triggerIndex s + 128 + j) mod 512"
    by (simp only: mod_add_self2)
  also have "\<dots> = ((triggerIndex s + 128) mod 512 + j) mod 512"
    by (simp add: mod_add_left_eq)
  finally have "(triggerIndex s + 448 + (192 + j)) mod 512
      = ((triggerIndex s + 128) mod 512 + j) mod 512" .
  then show ?thesis
    using assms by (simp add: snapshot_nth)
qed

lemma map_upt_const: "(\<And>i. i < n \<Longrightarrow> f i = c) \<Longrightarrow> map f [0..<n] = replicate n c"
  by (simp add: list_eq_iff_nth_eq)

lemma ring_after_replicate:
  assumes "sampleBuffer s = replicate 4 row" "\<forall>ch < 4. coupling (config s) ! ch = COUPLING_DC"
  shows "ring_after (reading t v) s = replicate 4 (row[bufferIndex s := v])"
  unfolding ring_after_def
  by (rule map_upt_const) (simp add: assms stored_sample_def reading_def)

lemma snapshot_replicate:
  assumes "sampleBuffer s = replicate 4 row"
  shows "snapshot s = replicate 4 (window row (startIndex (triggerIndex s)))"
  unfolding snapshot_def
  by (rule map_upt_const) (simp add: assms)

text \<open>
  Ticks that read 0 on every channel while a trigger is pending and the ring holds 0 at
  the cursor: the state changes by the cursor and the time stamp only.  Any number of
  them, up to the tick before the extraction, leads from a reachable state to a
  reachable state.
\<close>

lemma iterated_quiet:
  assumes "state_ok s" "sampleBuffer s = replicate 4 row"
    "\<forall>ch < 4. coupling (config s) ! ch = COUPLING_DC"
    "triggerSlope (config s) = TRIG_RISING" "0 < triggerADC (triggerLevel (config s))"
    "running (config s) \<or> triggerMode (config s) = TRIG_SINGLE"
    "triggered s" "triggerIndex s < bufferIndex s" "bufferIndex s < triggerIndex s + 127"
    "triggerIndex s + 127 < 512" "row ! bufferIndex s = 0"
    "micros inp - lastSampleTime s \<ge> sampleInterval (hScale (config s))"
    "inp = reading t 0"
  shows "iterated inp s = s\<lparr>bufferIndex := bufferIndex s + 1, lastSampleTime := t\<rparr>"
proof -
  have "row[bufferIndex s := 0] = row"
    using list_update_id [of row "bufferIndex s"] assms(11) by simp
  then have ring: "ring_after inp s = sampleBuffer s"
    using assms(2,3,13) by (simp add: ring_after_replicate)
  have "triggerChannel (config s) - 1 < 4"
    using assms(1) by (auto simp: state_ok_def config_ok_def)
  with assms(3) have "coupling (config s) ! (triggerChannel (config s) - 1) = COUPLING_DC"
    by blast
  then have cur: "stored_sample inp (config s) (triggerChannel (config s) - 1) = 0"
    using assms(13) by (simp add: stored_sample_def reading_def)
  have "\<not> triggerEvent (triggerSlope (config s)) p
      (stored_sample inp (config s) (triggerChannel (config s) - 1))
      (triggerADC (triggerLevel (config s)))" for p
    unfolding cur using assms(4,5) by (auto simp: triggerEvent_def word_gt_0)
  then have no_edge: "\<not> edge_detected (s\<lparr>sampleBuffer := ring_after inp s\<rparr>)"
    using edge_detected_sampled [OF assms(1), of inp] by blast
  have nx: "next_cursor (bufferIndex s) = bufferIndex s + 1"
    using assms(9,10) by (simp add: next_cursor_less)
  have at: "at_cursor inp s = s\<lparr>bufferIndex := bufferIndex s + 1\<rparr>"
    using no_edge assms(7)
    by (simp add: at_cursor_def detect_def auto_trigger_def advance_cursor_next nx ring)
  define d where "d = bufferIndex s + 1 - triggerIndex s"
  have d: "bufferIndex s + 1 + 512 - triggerIndex s = d + 512" "d < 128"
    using assms(8,9) by (simp_all add: d_def)
  have "(d + 512) mod 512 = d" using d(2) by simp
  moreover have "postTriggerSamples (bufferIndex s + 1) (triggerIndex s)
      = (bufferIndex s + 1 + 512 - triggerIndex s) mod 512"
    using assms(8,9,10) by (intro postTriggerSamples_ring) (simp_all add: BUFFER_SIZE_def)
  ultimately have "postTriggerSamples (bufferIndex s + 1) (triggerIndex s) = d"
    unfolding d(1) by simp
  then have "\<not> snapshot_due (at_cursor inp s)"
    using d(2) by (simp add: at snapshot_due_def DISPLAY_SAMPLES_def)
  moreover have "micros inp = t" using assms(13) by (simp add: reading_def)
  ultimately have "after_tick inp s = s\<lparr>bufferIndex := bufferIndex s + 1, lastSampleTime := t\<rparr>"
    by (simp add: after_tick_def extracted_unchanged at)
  then show ?thesis
    using assms(6,12) by (auto simp: iterated_def)
qed

lemma reachable_quiet_run:
  assumes "reachable s" "sampleBuffer s = replicate 4 row"
    "\<forall>ch < 4. coupling (config s) ! ch = COUPLING_DC"
    "triggerSlope (config s) = TRIG_RISING" "0 < triggerADC (triggerLevel (config s))"
    "running (config s) \<or> triggerMode (config s) = TRIG_SINGLE"
    "sampleInterval (hScale (config s)) = 15"
    "triggered s" "triggerIndex s < bufferIndex s" "bufferIndex s + k \<le> triggerIndex s + 127"
    "triggerIndex s + 127 < 512" "\<forall>j. bufferIndex s \<le> j \<and> j < bufferIndex s + k \<longrightarrow> row ! j = 0"
  shows "reachable (s\<lparr>bufferIndex := bufferIndex s + k,
     lastSampleTime := lastSampleTime s + 15 * of_nat k\<rparr>)"
  using assms(10,12)
proof (induction k)
  case 0
  then show ?case using assms(1) by simp
next
  case (Suc k)
  define sk where "sk = s\<lparr>bufferIndex := bufferIndex s + k,
     lastSampleTime := lastSampleTime s + 15 * of_nat k\<rparr>"
  have rk: "reachable sk" unfolding sk_def using Suc by simp
  then have ok: "state_ok sk" by (rule reachable_state_ok)
  have "iterated (reading (lastSampleTime s + 15 * of_nat k + 15) 0) sk
      = sk\<lparr>bufferIndex := bufferIndex sk + 1,
           lastSampleTime := lastSampleTime s + 15 * of_nat k + 15\<rparr>"
  proof (rule iterated_quiet [OF ok, where row = row])
    show "micros (reading (lastSampleTime s + 15 * of_nat k + 15) 0) - lastSampleTime sk
        \<ge> sampleInterval (hScale (config sk))"
      using assms(7) by (simp add: sk_def reading_def)
    show "row ! bufferIndex sk = 0" using Suc.prems by (simp add: sk_def)
  qed (use assms Suc.prems in \<open>simp_all add: sk_def\<close>)
  then have "acquisition_iteration (reading (lastSampleTime s + 15 * of_nat k + 15) 0) sk
      = Some (sk\<lparr>bufferIndex := bufferIndex sk + 1,
           lastSampleTime := lastSampleTime s + 15 * of_nat k + 15\<rparr>)"
    using ok by (simp add: acquisition_iteration_iterated)
  from reachable.iteration [OF rk this]
  show ?case by (simp add: sk_def algebra_simps)
qed

lemma replicate_update_same: "(replicate n x)[i := x] = replicate n x"
  by (cases "i < n") (simp_all add: list_eq_iff_nth_eq nth_list_update)

lemma initial_coupling: "\<forall>ch < 4. coupling initial_config ! ch = COUPLING_DC"
proof (intro allI impI)
  fix ch :: nat
  assume "ch < 4"
  then have "ch = 0 \<or> ch = 1 \<or> ch = 2 \<or> ch = 3" by arith
  then show "coupling initial_config ! ch = COUPLING_DC"
    by (auto simp: initial_config_def)
qed

lemma reachable_step:
  assumes "reachable s" "iterated inp s = s'"
  shows "reachable s'"
proof -
  have "acquisition_iteration inp s = Some s'"
    using assms reachable_state_ok [OF assms(1)] by (simp add: acquisition_iteration_iterated)
  with assms(1) show ?thesis by (rule reachable.iteration)
qed

lemma reachable_auto_capture_next: "reachable auto_capture_next"
proof -
  define a1 where "a1 = (initial_state 0)\<lparr>bufferIndex := 1, lastSampleTime := 15\<rparr>"
  define a2 where "a2 = (initial_state 0)\<lparr>bufferIndex := 2, lastSampleTime := 30\<rparr>"
  define a3 where "a3 = (initial_state 0)\<lparr>bufferIndex := 3, lastSampleTime := 45\<rparr>"
  define a4 where "a4 = (initial_state 0)\<lparr>bufferIndex := 4, triggerIndex := 3,
     triggered := True, lastSampleTime := 100115, autoTriggerStart := 100115\<rparr>"
  have ring: "ring_after (reading t 0) s = replicate 4 (replicate 512 0)"
    if "sampleBuffer s = replicate 4 (replicate 512 0)" "config s = initial_config" for t s
    using ring_after_replicate [of s "replicate 512 0" t 0] that initial_coupling
    by (simp add: replicate_update_same)
  have z: "sampleBuffer (initial_state 0) = replicate 4 (replicate 512 0)"
    "config (initial_state 0) = initial_config"
    by (simp_all add: initial_state_def BUFFER_SIZE_def)
  have 1: "iterated (reading 15 0) (initial_state 0) = a1"
  proof -
    have "iterated (reading 15 0) (initial_state 0) = (initial_state 0)
        \<lparr>sampleBuffer := ring_after (reading 15 0) (initial_state 0),
         bufferIndex := 1, lastSampleTime := 15\<rparr>"
      by (simp add: eval_defs example_defs)
    then show ?thesis
      unfolding ring [OF z] by (simp add: a1_def initial_state_def BUFFER_SIZE_def)
  qed
  have 2: "iterated (reading 30 0) a1 = a2"
  proof -
    have "iterated (reading 30 0) a1 = a1
        \<lparr>sampleBuffer := ring_after (reading 30 0) a1,
         bufferIndex := 2, lastSampleTime := 30\<rparr>"
      by (simp add: eval_defs example_defs a1_def)
    moreover have "ring_after (reading 30 0) a1 = replicate 4 (replicate 512 0)"
      by (rule ring) (simp_all add: a1_def z)
    ultimately show ?thesis
      by (simp add: a1_def a2_def initial_state_def BUFFER_SIZE_def)
  qed
  have 3: "iterated (reading 45 0) a2 = a3"
  proof -
    have "iterated (reading 45 0) a2 = a2
        \<lparr>sampleBuffer := ring_after (reading 45 0) a2,
         bufferIndex := 3, lastSampleTime := 45\<rparr>"
      by (simp add: eval_defs example_defs a2_def)
    moreover have "ring_after (reading 45 0) a2 = replicate 4 (replicate 512 0)"
      by (rule ring) (simp_all add: a2_def z)
    ultimately show ?thesis
      by (simp add: a2_def a3_def initial_state_def BUFFER_SIZE_def)
  qed
  have 4: "iterated (reading 100115 0) a3 = a4"
  proof -
    have "iterated (reading 100115 0) a3 = a3
        \<lparr>sampleBuffer := ring_after (reading 100115 0) a3,
         bufferIndex := 4, triggerIndex := 3, triggered := True,
         lastSampleTime := 100115, autoTriggerStart := 100115\<rparr>"
      by (simp add: eval_defs example_defs a3_def)
    moreover have "ring_after (reading 100115 0) a3 = replicate 4 (replicate 512 0)"
      by (rule ring) (simp_all add: a3_def z)
    ultimately show ?thesis
      by (simp add: a3_def a4_def initial_state_def BUFFER_SIZE_def)
  qed
  have r4: "reachable a4"
    using reachable.start [of 0] 1 2 3 4 by (blast intro: reachable_step)
  have "reachable (a4\<lparr>bufferIndex := bufferIndex a4 + 126,
     lastSampleTime := lastSampleTime a4 + 15 * of_nat 126\<rparr>)"
  proof (rule reachable_quiet_run [OF r4, where row = "replicate 512 0"])
    show "\<forall>ch<4. coupling (config a4) ! ch = COUPLING_DC"
      using initial_coupling by (simp add: a4_def initial_state_def)
  qed (simp_all add: a4_def example_defs triggerADC_def sampleInterval_initial)
  then show ?thesis
    by (simp add: a4_def auto_capture_next_def initial_state_def)
qed

lemma buffers_ok_replicate:
  assumes "sampleBuffer s = replicate 4 row" "length row = BUFFER_SIZE"
    "displayBuffer s = replicate 4 drow" "length drow = DISPLAY_SAMPLES"
  shows "buffers_ok s"
  using assms by (simp add: buffers_ok_def)

lemma state_ok_single_second_capture: "state_ok single_second_capture"
proof -
  have "buffers_ok single_second_capture"
    by (rule buffers_ok_replicate [where row = "(replicate BUFFER_SIZE 0)[3 := 1111, 131 := 4000]"
          and drow = "(replicate DISPLAY_SAMPLES 0)[64 := 1111]"])
       (simp_all add: single_second_capture_def)
  moreover have "config_ok (config single_second_capture)"
    by (simp add: single_second_capture_def config_ok_def initial_config_def)
  moreover have "bufferIndex single_second_capture < BUFFER_SIZE"
    by (simp add: single_second_capture_def BUFFER_SIZE_def)
  ultimately show ?thesis by (simp add: state_ok_def)
qed


lemma window_index: "i < 256 \<Longrightarrow> (451 + i) mod 512 = (3::nat) \<longleftrightarrow> i = 64"
proof (cases "i < 61")
  case True
  then have "(451 + i) mod 512 = 451 + i" by simp
  with True show ?thesis by simp
next
  case False
  then obtain j where j: "i = 61 + j" using le_Suc_ex [of 61 i] by auto
  assume "i < 256"
  then have "j < 195" using j by simp
  have "(451 + i) mod 512 = (j + 512) mod 512" using j by (simp add: add.commute)
  also have "\<dots> = j" using \<open>j < 195\<close> by simp
  finally show ?thesis using j by auto
qed

lemma window_single:
  "window ((replicate 512 0)[3 := 1111]) (startIndex 3) = (replicate 256 0)[64 := (1111::u16)]"
proof (rule nth_equalityI)
  show "length (window ((replicate 512 0)[3 := 1111]) (startIndex 3))
      = length ((replicate 256 0)[64 := (1111::u16)])"
    by (simp add: DISPLAY_SAMPLES_def)
next
  fix i
  assume "i < length (window ((replicate 512 0)[3 := 1111]) (startIndex 3))"
  then have i: "i < 256" by (simp add: DISPLAY_SAMPLES_def)
  have m: "nat ((startIndex 3 + int i) mod int BUFFER_SIZE) = (451 + i) mod 512"
    using startIndex_mod [of 3 i] by (simp add: BUFFER_SIZE_def)
  have lt: "(451 + i) mod 512 < 512" by simp
  have "window ((replicate 512 0)[3 := 1111]) (startIndex 3) ! i
      = ((replicate 512 0)[3 := (1111::u16)]) ! ((451 + i) mod 512)"
    using i by (simp only: nth_window DISPLAY_SAMPLES_def m)
  also have "\<dots> = (if (451 + i) mod 512 = 3 then 1111 else 0)"
    using lt by (simp only: nth_list_update length_replicate nth_replicate) auto
  also have "\<dots> = (if i = 64 then 1111 else 0)"
    using window_index [OF i] by simp
  also have "\<dots> = (replicate 256 0)[64 := (1111::u16)] ! i"
    using i by (simp add: nth_list_update)
  finally show "window ((replicate 512 0)[3 := 1111]) (startIndex 3) ! i
      = (replicate 256 0)[64 := (1111::u16)] ! i" .
qed

lemma reachable_single_second_capture: "reachable single_second_capture"
proof -
  define cfgS where "cfgS = initial_config\<lparr>triggerMode := TRIG_SINGLE\<rparr>"
  define row1 where "row1 = (replicate 512 (0::u16))[3 := 1111]"
  define row2 where "row2 = (replicate 512 (0::u16))[3 := 1111, 131 := 4000]"
  define c0 where "c0 = (initial_state 0)\<lparr>config := cfgS\<rparr>"
  define b1 where "b1 = c0\<lparr>bufferIndex := 1, lastSampleTime := 15\<rparr>"
  define b2 where "b2 = c0\<lparr>bufferIndex := 2, lastSampleTime := 30\<rparr>"
  define b3 where "b3 = c0\<lparr>bufferIndex := 3, lastSampleTime := 45\<rparr>"
  define b4 where "b4 = c0\<lparr>sampleBuffer := replicate 4 row1, bufferIndex := 4,
     triggerIndex := 3, triggered := True, lastSampleTime := 60, autoTriggerStart := 60\<rparr>"
  define b5 where "b5 = b4\<lparr>bufferIndex := 130, lastSampleTime := 1950\<rparr>"
  define b6 where "b6 = b5\<lparr>config := cfgS\<lparr>running := False\<rparr>,
     displayBuffer := replicate 4 ((replicate 256 0)[64 := 1111]), bufferIndex := 131,
     bufferReady := True, triggered := False, lastSampleTime := 1965,
     waitingForTrigger := True\<rparr>"
  define b7 where "b7 = b6\<lparr>sampleBuffer := replicate 4 row2, bufferIndex := 132,
     triggerIndex := 131, triggered := True, lastSampleTime := 1980,
     autoTriggerStart := 1980, waitingForTrigger := False\<rparr>"
  have cpl: "\<forall>ch < 4. coupling cfgS ! ch = COUPLING_DC"
    "\<forall>ch < 4. coupling (cfgS\<lparr>running := False\<rparr>) ! ch = COUPLING_DC"
    using initial_coupling by (simp_all add: cfgS_def)
  have cfg: "triggerSlope cfgS = TRIG_RISING" "triggerMode cfgS = TRIG_SINGLE"
    "triggerADC (triggerLevel cfgS) = 37" "sampleInterval (hScale cfgS) = 15"
    "running cfgS" "triggerChannel cfgS = 1" "channelEnabled cfgS ! 0"
    by (simp_all add: cfgS_def initial_config_def triggerADC_def sampleInterval_initial)
  have z: "sampleBuffer c0 = replicate 4 (replicate 512 0)" "config c0 = cfgS"
    by (simp_all add: c0_def initial_state_def BUFFER_SIZE_def)
  have ring0: "ring_after (reading t 0) s = replicate 4 (replicate 512 0)"
    if "sampleBuffer s = replicate 4 (replicate 512 0)" "config s = cfgS" for t s
    using ring_after_replicate [of s "replicate 512 0" t 0] that cpl
    by (simp add: replicate_update_same)
  have r0: "reachable c0"
    using reachable.command [OF reachable.start, of "TMode ''SINGLE''" 0]
    by (simp add: c0_def cfgS_def parseTriggerMode_def initial_state_def)
  have 1: "iterated (reading 15 0) c0 = b1"
  proof -
    have "iterated (reading 15 0) c0 = c0
        \<lparr>sampleBuffer := ring_after (reading 15 0) c0, bufferIndex := 1, lastSampleTime := 15\<rparr>"
      by (simp add: eval_defs example_defs c0_def cfgS_def)
    then show ?thesis
      unfolding ring0 [OF z] by (simp add: b1_def c0_def initial_state_def BUFFER_SIZE_def)
  qed
  have 2: "iterated (reading 30 0) b1 = b2"
  proof -
    have "iterated (reading 30 0) b1 = b1
        \<lparr>sampleBuffer := ring_after (reading 30 0) b1, bufferIndex := 2, lastSampleTime := 30\<rparr>"
      by (simp add: eval_defs example_defs b1_def c0_def cfgS_def)
    moreover have "ring_after (reading 30 0) b1 = replicate 4 (replicate 512 0)"
      by (rule ring0) (simp_all add: b1_def z)
    ultimately show ?thesis
      by (simp add: b1_def b2_def c0_def initial_state_def BUFFER_SIZE_def)
  qed
  have 3: "iterated (reading 45 0) b2 = b3"
  proof -
    have "iterated (reading 45 0) b2 = b2
        \<lparr>sampleBuffer := ring_after (reading 45 0) b2, bufferIndex := 3, lastSampleTime := 45\<rparr>"
      by (simp add: eval_defs example_defs b2_def c0_def cfgS_def)
    moreover have "ring_after (reading 45 0) b2 = replicate 4 (replicate 512 0)"
      by (rule ring0) (simp_all add: b2_def z)
    ultimately show ?thesis
      by (simp add: b2_def b3_def c0_def initial_state_def BUFFER_SIZE_def)
  qed
  have 4: "iterated (reading 60 1111) b3 = b4"
  proof -
    have "iterated (reading 60 1111) b3 = b3
        \<lparr>sampleBuffer := ring_after (reading 60 1111) b3, bufferIndex := 4,
         triggerIndex := 3, triggered := True, lastSampleTime := 60, autoTriggerStart := 60\<rparr>"
      by (simp add: eval_defs example_defs b3_def c0_def cfgS_def)
    moreover have "ring_after (reading 60 1111) b3 = replicate 4 row1"
      using ring_after_replicate [of b3 "replicate 512 0" 60 1111] cpl
      by (simp add: b3_def z row1_def)
    ultimately show ?thesis
      by (simp add: b3_def b4_def c0_def initial_state_def)
  qed
  have r4: "reachable b4"
    using r0 1 2 3 4 by (blast intro: reachable_step)
  have "reachable (b4\<lparr>bufferIndex := bufferIndex b4 + 126,
     lastSampleTime := lastSampleTime b4 + 15 * of_nat 126\<rparr>)"
  proof (rule reachable_quiet_run [OF r4, where row = row1])
    show "\<forall>ch<4. coupling (config b4) ! ch = COUPLING_DC"
      using cpl by (simp add: b4_def c0_def)
    show "\<forall>j. bufferIndex b4 \<le> j \<and> j < bufferIndex b4 + 126 \<longrightarrow> row1 ! j = 0"
      by (simp add: b4_def row1_def)
  qed (simp_all add: b4_def c0_def cfg)
  then have r5: "reachable b5"
    by (simp add: b5_def b4_def)
  have 6: "iterated (reading 1965 0) b5 = b6"
  proof -
    have "iterated (reading 1965 0) b5 = b5
        \<lparr>config := cfgS\<lparr>running := False\<rparr>,
         sampleBuffer := ring_after (reading 1965 0) b5,
         displayBuffer := snapshot (b5\<lparr>sampleBuffer := ring_after (reading 1965 0) b5,
           bufferIndex := 131\<rparr>),
         bufferIndex := 131, bufferReady := True, triggered := False,
         lastSampleTime := 1965, waitingForTrigger := True\<rparr>"
    proof -
      have at: "at_cursor (reading 1965 0) b5
          = b5\<lparr>sampleBuffer := ring_after (reading 1965 0) b5, bufferIndex := 131\<rparr>"
        by (simp add: at_cursor_def detect_def edge_detected_def auto_trigger_def
            advance_cursor_next next_cursor_simps nth_ring_after stored_sample_def
            triggerEvent_def triggerADC_def b5_def b4_def c0_def cfgS_def row1_def
            example_defs)
      have due: "snapshot_due (b5\<lparr>sampleBuffer := ring_after (reading 1965 0) b5,
          bufferIndex := 131\<rparr>)"
        by (simp add: snapshot_due_def postTriggerSamples_def b5_def b4_def example_defs)
      show ?thesis
        unfolding iterated_def after_tick_def at extracted_def
        using due
        by (simp add: b5_def b4_def c0_def cfgS_def example_defs sampleInterval_initial)
    qed
    moreover have ra: "ring_after (reading 1965 0) b5 = replicate 4 row1"
      using ring_after_replicate [of b5 row1 1965 0] cpl
        list_update_id [of row1 130]
      by (simp add: b5_def b4_def c0_def row1_def)
    moreover have "snapshot (b5\<lparr>sampleBuffer := replicate 4 row1, bufferIndex := 131\<rparr>)
        = replicate 4 ((replicate 256 0)[64 := 1111])"
      using snapshot_replicate [of "b5\<lparr>sampleBuffer := replicate 4 row1, bufferIndex := 131\<rparr>" row1]
        window_single
      by (simp add: b5_def b4_def row1_def)
    ultimately show ?thesis
      by (simp add: b6_def b5_def b4_def)
  qed
  have 7: "iterated (reading 1980 4000) b6 = b7"
  proof -
    have "iterated (reading 1980 4000) b6 = b6
        \<lparr>sampleBuffer := ring_after (reading 1980 4000) b6, bufferIndex := 132,
         triggerIndex := 131, triggered := True, lastSampleTime := 1980,
         autoTriggerStart := 1980, waitingForTrigger := False\<rparr>"
      by (simp add: eval_defs example_defs b6_def b5_def b4_def c0_def cfgS_def row1_def)
    moreover have "ring_after (reading 1980 4000) b6 = replicate 4 row2"
      using ring_after_replicate [of b6 row1 1980 4000] cpl
      by (simp add: b6_def b5_def b4_def row1_def row2_def)
    ultimately show ?thesis
      by (simp add: b7_def b6_def)
  qed
  have r7: "reachable b7"
    using r5 6 7 by (blast intro: reachable_step)
  have "reachable (b7\<lparr>bufferIndex := bufferIndex b7 + 126,
     lastSampleTime := lastSampleTime b7 + 15 * of_nat 126\<rparr>)"
  proof (rule reachable_quiet_run [OF r7, where row = row2])
    show "\<forall>ch<4. coupling (config b7) ! ch = COUPLING_DC"
      using cpl by (simp add: b7_def b6_def)
    show "\<forall>j. bufferIndex b7 \<le> j \<and> j < bufferIndex b7 + 126 \<longrightarrow> row2 ! j = 0"
      by (simp add: b7_def row2_def)
  qed (simp_all add: b7_def b6_def cfg)
  then show ?thesis
    by (simp add: b7_def b6_def b5_def b4_def c0_def cfgS_def row2_def
        single_second_capture_def initial_state_def BUFFER_SIZE_def DISPLAY_SAMPLES_def)
qed

text \<open>The trigger position of a reachable state lies inside the ring.\<close>

lemma triggerIndex_after_tick:
  "triggerIndex (after_tick inp s) = triggerIndex s \<or> triggerIndex (after_tick inp s) = bufferIndex s"
  by (simp add: after_tick_def extracted_fields at_cursor_def advance_cursor_next auto_trigger_def
      detect_def)

lemma reachable_triggerIndex: "reachable s \<Longrightarrow> triggerIndex s < BUFFER_SIZE"
proof (induction rule: reachable.induct)
  case (start t0)
  show ?case by (simp add: initial_state_def BUFFER_SIZE_def)
next
  case (iteration s inp s')
  have ok: "state_ok s" using iteration.hyps(1) by (rule reachable_state_ok)
  then have "s' = iterated inp s"
    using iteration.hyps(2) by (simp add: acquisition_iteration_iterated)
  moreover have "bufferIndex s < BUFFER_SIZE" using ok by (simp add: state_ok_def)
  ultimately show ?case
    using iteration.IH triggerIndex_after_tick [of inp s] by (auto simp: iterated_def)
next
  case (command s c cfg)
  then show ?case by simp
next
  case (time_base s h)
  then show ?case by simp
qed

text \<open>
  The extraction step copies only when a trigger is pending and the ring distance from
  the trigger position to the cursor (the count \<open>postTriggerSamples\<close>) is at least 128.
  It then fills each channel's display buffer with the 256 ring entries at the
  positions \<open>triggerIndex - 64, \<dots>, triggerIndex + 191\<close> modulo 512, so that display
  index 64 holds the sample at the trigger position; it sets the ready flag, clears the
  triggered flag and sets the waiting flag.  Otherwise it changes nothing, and a tick
  changes the display buffer only through this step.
\<close>

lemma extract_snapshot_window:
  assumes "buffers_ok s" "bufferIndex s < BUFFER_SIZE" "triggerIndex s < BUFFER_SIZE"
  shows "postTriggerSamples (bufferIndex s) (triggerIndex s)
           = (bufferIndex s + 512 - triggerIndex s) mod 512 \<and>
    (\<exists>s'. extract_snapshot s = Some s' \<and>
      (if triggered s \<and> 128 \<le> postTriggerSamples (bufferIndex s) (triggerIndex s) then
         length (displayBuffer s') = 4 \<and>
         (\<forall>ch < 4. length (displayBuffer s' ! ch) = 256 \<and>
            (\<forall>i < 256. displayBuffer s' ! ch ! i
                = sampleBuffer s ! ch ! ((triggerIndex s + 448 + i) mod 512)) \<and>
            displayBuffer s' ! ch ! 64 = sampleBuffer s ! ch ! triggerIndex s) \<and>
         bufferReady s' \<and> \<not> triggered s' \<and> waitingForTrigger s' \<and>
         sampleBuffer s' = sampleBuffer s \<and> bufferIndex s' = bufferIndex s \<and>
         triggerIndex s' = triggerIndex s
       else s' = s)) \<and>
    (state_ok s0 \<longrightarrow>
      (\<exists>s1. acquisition_tick inp s0 = Some s1 \<and>
         (displayBuffer s1 \<noteq> displayBuffer s0 \<longrightarrow>
            128 \<le> postTriggerSamples (bufferIndex s1) (triggerIndex s1))))"
proof (intro conjI)
  show "postTriggerSamples (bufferIndex s) (triggerIndex s)
           = (bufferIndex s + 512 - triggerIndex s) mod 512"
    using assms by (simp add: postTriggerSamples_ring)
next
  have trig: "(triggerIndex s + 448 + 64) mod 512 = triggerIndex s"
    using assms(3) by (simp add: BUFFER_SIZE_def)
  have "snapshot s ! ch ! 64 = sampleBuffer s ! ch ! triggerIndex s" if "ch < 4" for ch
    using snapshot_nth [OF that, of 64 s] assms(3) trig by simp
  then show "\<exists>s'. extract_snapshot s = Some s' \<and>
      (if triggered s \<and> 128 \<le> postTriggerSamples (bufferIndex s) (triggerIndex s) then
         length (displayBuffer s') = 4 \<and>
         (\<forall>ch < 4. length (displayBuffer s' ! ch) = 256 \<and>
            (\<forall>i < 256. displayBuffer s' ! ch ! i
                = sampleBuffer s ! ch ! ((triggerIndex s + 448 + i) mod 512)) \<and>
            displayBuffer s' ! ch ! 64 = sampleBuffer s ! ch ! triggerIndex s) \<and>
         bufferReady s' \<and> \<not> triggered s' \<and> waitingForTrigger s' \<and>
         sampleBuffer s' = sampleBuffer s \<and> bufferIndex s' = bufferIndex s \<and>
         triggerIndex s' = triggerIndex s
       else s' = s)"
    using assms
    by (simp add: extract_snapshot_closed extracted_def snapshot_due_def DISPLAY_SAMPLES_def
        snapshot_nth length_snapshot_row)
next
  show "state_ok s0 \<longrightarrow>
      (\<exists>s1. acquisition_tick inp s0 = Some s1 \<and>
         (displayBuffer s1 \<noteq> displayBuffer s0 \<longrightarrow>
            128 \<le> postTriggerSamples (bufferIndex s1) (triggerIndex s1)))"
  proof
    assume ok: "state_ok s0"
    have "128 \<le> postTriggerSamples (bufferIndex (after_tick inp s0)) (triggerIndex (after_tick inp s0))"
      if "displayBuffer (after_tick inp s0) \<noteq> displayBuffer s0"
    proof (rule ccontr)
      assume "\<not> ?thesis"
      then have "\<not> snapshot_due (at_cursor inp s0)"
        by (simp add: after_tick_def extracted_fields snapshot_due_def DISPLAY_SAMPLES_def)
      then have "displayBuffer (after_tick inp s0) = displayBuffer s0"
        by (simp add: after_tick_def extracted_unchanged at_cursor_fields)
      with that show False by simp
    qed
    then show "\<exists>s1. acquisition_tick inp s0 = Some s1 \<and>
         (displayBuffer s1 \<noteq> displayBuffer s0 \<longrightarrow>
            128 \<le> postTriggerSamples (bufferIndex s1) (triggerIndex s1))"
      using ok by (simp add: acquisition_tick_closed)
  qed
qed

lemma steady_row_length: "m \<le> 509 \<Longrightarrow> length (steady_row m) = 512"
  by (simp add: steady_row_def)

lemma steady_row_nth:
  assumes "m \<le> 509" "i < 512"
  shows "steady_row m ! i = (if 3 \<le> i \<and> i < 3 + m then 4000 else 0)"
  using assms by (auto simp: steady_row_def nth_append)

lemma steady_row_update:
  assumes "m < 509"
  shows "(steady_row m)[3 + m := 4000] = steady_row (Suc m)"
proof (rule nth_equalityI)
  show "length ((steady_row m)[3 + m := 4000]) = length (steady_row (Suc m))"
    using assms by (simp add: steady_row_length)
next
  fix i assume "i < length ((steady_row m)[3 + m := 4000])"
  then have i: "i < 512" using assms by (simp add: steady_row_length)
  show "(steady_row m)[3 + m := 4000] ! i = steady_row (Suc m) ! i"
    using assms i by (simp add: nth_list_update steady_row_nth steady_row_length) 
qed

lemma state_ok_steady_state: "m \<le> 508 \<Longrightarrow> state_ok (steady_state m)"
  by (simp add: state_ok_def config_ok_def buffers_ok_def steady_state_def example_defs
      steady_row_def)

lemma iterated_steady:
  assumes "1 \<le> m" "m < 127"
  shows "iterated (reading (60 + 15 * of_nat m) 4000) (steady_state m) = steady_state (Suc m)"
proof -
  define s where "s = steady_state m"
  define inp where "inp = reading (60 + 15 * of_nat m) 4000"
  have ok: "state_ok s" using assms by (simp add: s_def state_ok_steady_state)
  have cfg: "config s = initial_config" by (simp add: s_def steady_state_def initial_state_def)
  have ring: "ring_after inp s = replicate 4 (steady_row (Suc m))"
    using ring_after_replicate [of s "steady_row m" "60 + 15 * of_nat m" 4000]
      initial_coupling assms steady_row_update [of m]
    by (simp add: cfg inp_def) (simp add: s_def steady_state_def)
  have prev: "sampleBuffer s ! (triggerChannel (config s) - 1) ! (bufferIndex s - 1) = 4000"
    using assms by (simp add: cfg initial_config_def) (simp add: s_def steady_state_def steady_row_nth)
  have "\<not> triggerEvent (triggerSlope (config s)) 4000 c (triggerADC (triggerLevel (config s)))" for c
    by (simp add: cfg initial_config_def triggerEvent_def triggerADC_def)
  then have no_edge: "\<not> edge_detected (s\<lparr>sampleBuffer := ring_after inp s\<rparr>)"
    using edge_detected_sampled [OF ok, of inp] prev by simp
  have b: "bufferIndex s = 3 + m" "triggerIndex s = 3" "triggered s"
    by (simp_all add: s_def steady_state_def)
  have nx: "next_cursor (bufferIndex s) = 4 + m"
    using assms by (simp add: b next_cursor_less)
  have at: "at_cursor inp s = s\<lparr>sampleBuffer := replicate 4 (steady_row (Suc m)),
      bufferIndex := 4 + m\<rparr>"
    using no_edge b(3)
    by (simp add: at_cursor_def detect_def auto_trigger_def advance_cursor_next nx ring)
  have "postTriggerSamples (4 + m) 3 = 1 + m"
    using assms by (simp add: postTriggerSamples_def)
  then have "\<not> snapshot_due (at_cursor inp s)"
    using assms by (simp add: at snapshot_due_def DISPLAY_SAMPLES_def b)
  moreover have "micros inp = 60 + 15 * of_nat m" by (simp add: inp_def reading_def)
  ultimately have "after_tick inp s = s\<lparr>sampleBuffer := replicate 4 (steady_row (Suc m)),
      bufferIndex := 4 + m, lastSampleTime := 60 + 15 * of_nat m\<rparr>"
    by (simp add: after_tick_def extracted_unchanged at)
  moreover have "iterated inp s = after_tick inp s"
    by (simp add: iterated_def cfg sampleInterval_initial initial_config_def)
      (simp add: inp_def reading_def s_def steady_state_def initial_state_def)
  ultimately show ?thesis
    unfolding s_def [symmetric] inp_def [symmetric]
    by (simp add: s_def steady_state_def algebra_simps)
qed


lemma steady_row_0: "steady_row 0 = replicate 512 0"
  by (simp add: steady_row_def replicate_add [symmetric])

lemma reachable_steady_state_1: "reachable (steady_state 1)"
proof -
  define a1 where "a1 = (initial_state 0)\<lparr>bufferIndex := 1, lastSampleTime := 15\<rparr>"
  define a2 where "a2 = (initial_state 0)\<lparr>bufferIndex := 2, lastSampleTime := 30\<rparr>"
  define a3 where "a3 = (initial_state 0)\<lparr>bufferIndex := 3, lastSampleTime := 45\<rparr>"
  have ring: "ring_after (reading t 0) s = replicate 4 (replicate 512 0)"
    if "sampleBuffer s = replicate 4 (replicate 512 0)" "config s = initial_config" for t s
    using ring_after_replicate [of s "replicate 512 0" t 0] that initial_coupling
    by (simp add: replicate_update_same)
  have z: "sampleBuffer (initial_state 0) = replicate 4 (replicate 512 0)"
    "config (initial_state 0) = initial_config"
    by (simp_all add: initial_state_def BUFFER_SIZE_def)
  have 1: "iterated (reading 15 0) (initial_state 0) = a1"
  proof -
    have "iterated (reading 15 0) (initial_state 0) = (initial_state 0)
        \<lparr>sampleBuffer := ring_after (reading 15 0) (initial_state 0),
         bufferIndex := 1, lastSampleTime := 15\<rparr>"
      by (simp add: eval_defs example_defs)
    then show ?thesis
      unfolding ring [OF z] by (simp add: a1_def initial_state_def BUFFER_SIZE_def)
  qed
  have 2: "iterated (reading 30 0) a1 = a2"
  proof -
    have "iterated (reading 30 0) a1 = a1
        \<lparr>sampleBuffer := ring_after (reading 30 0) a1,
         bufferIndex := 2, lastSampleTime := 30\<rparr>"
      by (simp add: eval_defs example_defs a1_def)
    moreover have "ring_after (reading 30 0) a1 = replicate 4 (replicate 512 0)"
      by (rule ring) (simp_all add: a1_def z)
    ultimately show ?thesis
      by (simp add: a1_def a2_def initial_state_def BUFFER_SIZE_def)
  qed
  have 3: "iterated (reading 45 0) a2 = a3"
  proof -
    have "iterated (reading 45 0) a2 = a2
        \<lparr>sampleBuffer := ring_after (reading 45 0) a2,
         bufferIndex := 3, lastSampleTime := 45\<rparr>"
      by (simp add: eval_defs example_defs a2_def)
    moreover have "ring_after (reading 45 0) a2 = replicate 4 (replicate 512 0)"
      by (rule ring) (simp_all add: a2_def z)
    ultimately show ?thesis
      by (simp add: a2_def a3_def initial_state_def BUFFER_SIZE_def)
  qed
  have 4: "iterated (reading 60 4000) a3 = steady_state 1"
  proof -
    have "iterated (reading 60 4000) a3 = a3
        \<lparr>sampleBuffer := ring_after (reading 60 4000) a3,
         bufferIndex := 4, triggerIndex := 3, triggered := True,
         lastSampleTime := 60, autoTriggerStart := 60\<rparr>"
      by (simp add: eval_defs example_defs a3_def)
    moreover have "ring_after (reading 60 4000) a3 = replicate 4 (steady_row 1)"
      using ring_after_replicate [of a3 "steady_row 0" 60 4000] initial_coupling
        steady_row_update [of 0]
      by (simp add: a3_def z steady_row_0)
    ultimately show ?thesis
      by (simp add: a3_def steady_state_def initial_state_def)
  qed
  show ?thesis
    using reachable.start [of 0] 1 2 3 4 by (blast intro: reachable_step)
qed

lemma reachable_steady_state:
  assumes "1 \<le> m" "m \<le> 127"
  shows "reachable (steady_state m)"
  using assms
proof (induction m)
  case 0
  then show ?case by simp
next
  case (Suc m)
  show ?case
  proof (cases "m = 0")
    case True
    then show ?thesis using reachable_steady_state_1 by simp
  next
    case False
    then have m: "1 \<le> m" "m < 127" using Suc.prems by simp_all
    then have "reachable (steady_state m)" using Suc.IH by simp
    then show ?thesis
      using iterated_steady [OF m] by (rule reachable_step)
  qed
qed

lemma reachable_steady_capture_next: "reachable steady_capture_next"
  unfolding steady_capture_next_def by (rule reachable_steady_state) simp_all

lemma window_steady_index:
  assumes "i < 256"
  shows "nat ((451 + int i) mod 512) = (if i < 61 then 451 + i else i - 61)"
proof (cases "i < 61")
  case True
  then have "(451 + int i) mod 512 = 451 + int i" by simp
  then show ?thesis using True by simp
next
  case False
  then have "451 + int i = (int i - 61) + 512" by simp
  then have "(451 + int i) mod 512 = (int i - 61) mod 512"
    by (simp only: mod_add_self2)
  also have "\<dots> = int i - 61" using False assms by simp
  finally show ?thesis using False by simp
qed

lemma window_steady:
  "window (steady_row 128) 451 = replicate 64 0 @ replicate 128 4000 @ replicate 64 0"
proof (rule nth_equalityI)
  show "length (window (steady_row 128) 451)
      = length (replicate 64 0 @ replicate 128 4000 @ replicate 64 (0::u16))"
    by (simp add: DISPLAY_SAMPLES_def)
next
  fix i assume "i < length (window (steady_row 128) 451)"
  then have i: "i < 256" by (simp add: DISPLAY_SAMPLES_def)
  have r: "(replicate 64 0 @ replicate 128 4000 @ replicate 64 (0::u16)) ! i
      = (if 64 \<le> i \<and> i < 192 then 4000 else 0)"
    using i by (auto simp: nth_append)
  have l: "window (steady_row 128) 451 ! i
      = steady_row 128 ! (if i < 61 then 451 + i else i - 61)"
    using i window_steady_index [OF i]
    by (simp add: window_def DISPLAY_SAMPLES_def BUFFER_SIZE_def)
  show "window (steady_row 128) 451 ! i
      = (replicate 64 0 @ replicate 128 4000 @ replicate 64 0) ! i"
    unfolding l r using i by (auto simp: steady_row_nth)
qed


lemma steady_capture_tick:
  "iterated (reading 1965 4000) steady_capture_next =
     steady_capture_next
       \<lparr>sampleBuffer := replicate 4 (steady_row 128),
        displayBuffer := replicate 4 (replicate 64 0 @ replicate 128 4000 @ replicate 64 0),
        bufferIndex := 131, bufferReady := True, triggered := False,
        lastSampleTime := 1965, waitingForTrigger := True\<rparr>"
proof -
  define s where "s = steady_state 127"
  define inp where "inp = reading 1965 4000"
  have ok: "state_ok s" by (simp add: s_def state_ok_steady_state)
  have cfg: "config s = initial_config" by (simp add: s_def steady_state_def initial_state_def)
  have ring: "ring_after inp s = replicate 4 (steady_row 128)"
    using ring_after_replicate [of s "steady_row 127" 1965 4000]
      initial_coupling steady_row_update [of 127]
    by (simp add: cfg inp_def) (simp add: s_def steady_state_def)
  have prev: "sampleBuffer s ! (triggerChannel (config s) - 1) ! (bufferIndex s - 1) = 4000"
    by (simp add: cfg initial_config_def) (simp add: s_def steady_state_def steady_row_nth)
  have "\<not> triggerEvent (triggerSlope (config s)) 4000 c (triggerADC (triggerLevel (config s)))" for c
    by (simp add: cfg initial_config_def triggerEvent_def triggerADC_def)
  then have no_edge: "\<not> edge_detected (s\<lparr>sampleBuffer := ring_after inp s\<rparr>)"
    using edge_detected_sampled [OF ok, of inp] prev by simp
  have b: "bufferIndex s = 130" "triggerIndex s = 3" "triggered s"
    by (simp_all add: s_def steady_state_def)
  have nx: "next_cursor (bufferIndex s) = 131"
    by (simp add: b next_cursor_less)
  have at: "at_cursor inp s = s\<lparr>sampleBuffer := replicate 4 (steady_row 128),
      bufferIndex := 131\<rparr>"
    using no_edge b(3)
    by (simp add: at_cursor_def detect_def auto_trigger_def advance_cursor_next nx ring)
  have "postTriggerSamples 131 3 = 128"
    by (simp add: postTriggerSamples_def)
  then have due: "snapshot_due (at_cursor inp s)"
    by (simp add: at snapshot_due_def DISPLAY_SAMPLES_def b)
  have "startIndex 3 = 451"
    by (simp add: startIndex_def DISPLAY_SAMPLES_def BUFFER_SIZE_def)
  then have snap: "snapshot (at_cursor inp s)
      = replicate 4 (replicate 64 0 @ replicate 128 4000 @ replicate 64 0)"
    using snapshot_replicate [of "at_cursor inp s" "steady_row 128"]
    by (simp add: at b window_steady)
  have "micros inp = 1965" by (simp add: inp_def reading_def)
  then have "after_tick inp s = s\<lparr>sampleBuffer := replicate 4 (steady_row 128),
        displayBuffer := replicate 4 (replicate 64 0 @ replicate 128 4000 @ replicate 64 0),
        bufferIndex := 131, bufferReady := True, triggered := False,
        lastSampleTime := 1965, waitingForTrigger := True\<rparr>"
    using due snap
    by (simp add: after_tick_def extracted_def) (simp add: at cfg initial_config_def)
  moreover have "iterated inp s = after_tick inp s"
    by (simp add: iterated_def cfg sampleInterval_initial initial_config_def)
      (simp add: inp_def reading_def s_def steady_state_def initial_state_def)
  ultimately show ?thesis
    unfolding s_def [symmetric] inp_def [symmetric] steady_capture_next_def
    by simp
qed

text \<open>
  While a trigger is pending in a reachable state, between 1 and 127 samples have been
  written since the trigger position: the extraction takes place on the tick that
  brings the count to 128, never later.
\<close>

lemma postTriggerSamples_cases:
  assumes "b < 512" "t < 512"
  shows "postTriggerSamples b t = (if t \<le> b then b - t else 512 + b - t)"
proof (cases "t \<le> b")
  case True
  then have "(int b - int t) mod 65536 = int (b - t)"
    using assms by simp
  then show ?thesis using True by (simp add: postTriggerSamples_def)
next
  case False
  then have "(int BUFFER_SIZE - int t + int b) mod 65536 = int (512 + b - t)"
    using assms by (simp add: BUFFER_SIZE_def)
  then show ?thesis using False by (simp add: postTriggerSamples_def)
qed

lemma next_cursor_cases: "b < 512 \<Longrightarrow> next_cursor b = (if b = 511 then 0 else b + 1)"
  by (simp add: next_cursor_simps next_cursor_less)

lemma post_next_cursor:
  assumes "b < 512" "t < 512" "postTriggerSamples b t < 128"
  shows "postTriggerSamples (next_cursor b) t = postTriggerSamples b t + 1"
proof (cases "b = 511")
  case True
  have p: "postTriggerSamples 511 t = 511 - t"
    using assms(2) by (simp add: postTriggerSamples_cases)
  with assms(3) True have "0 < t" by simp
  then have "postTriggerSamples 0 t = 512 - t"
    using assms(2) by (simp add: postTriggerSamples_cases)
  then show ?thesis
    using True p assms(2) by (simp add: next_cursor_simps)
next
  case False
  then have n: "next_cursor b = b + 1" "b + 1 < 512"
    using assms(1) by (simp_all add: next_cursor_less)
  have p: "postTriggerSamples b t = (if t \<le> b then b - t else 512 + b - t)"
    using assms(1,2) by (rule postTriggerSamples_cases)
  have q: "postTriggerSamples (b + 1) t = (if t \<le> b + 1 then b + 1 - t else 512 + (b + 1) - t)"
    using n(2) assms(2) by (rule postTriggerSamples_cases)
  show ?thesis
    using assms p q by (simp add: n(1) split: if_splits)
qed

lemma after_tick_pending_distance:
  assumes "bufferIndex s < BUFFER_SIZE" "triggerIndex s < BUFFER_SIZE"
    and "triggered s \<longrightarrow> 1 \<le> postTriggerSamples (bufferIndex s) (triggerIndex s) \<and>
       postTriggerSamples (bufferIndex s) (triggerIndex s) < 128"
    and "triggered (after_tick inp s)"
  shows "1 \<le> postTriggerSamples (bufferIndex (after_tick inp s)) (triggerIndex (after_tick inp s)) \<and>
     postTriggerSamples (bufferIndex (after_tick inp s)) (triggerIndex (after_tick inp s)) < 128"
proof (cases "edge_detected (s\<lparr>sampleBuffer := ring_after inp s\<rparr>) \<or>
     (triggerMode (config s) = TRIG_AUTO \<and> \<not> triggered s \<and>
      autoTriggerTimeout (config s) < micros inp - autoTriggerStart s)")
  case True
  have "triggerIndex (after_tick inp s) = bufferIndex s"
    using after_tick_trigger_now(2) [OF assms(1) True] .
  moreover have "bufferIndex (after_tick inp s) = next_cursor (bufferIndex s)"
    by (simp add: after_tick_def extracted_fields at_cursor_def advance_cursor_next
        auto_trigger_def detect_def)
  ultimately show ?thesis
    using post_after_trigger [OF assms(1)] by simp
next
  case False
  with assms(4) have tr: "triggered s"
    using after_tick_triggered_cases [of inp s] by blast
  have at: "at_cursor inp s = s\<lparr>sampleBuffer := ring_after inp s,
      bufferIndex := next_cursor (bufferIndex s)\<rparr>"
    using False tr by (simp add: at_cursor_def detect_def auto_trigger_def advance_cursor_next)
  have p: "postTriggerSamples (next_cursor (bufferIndex s)) (triggerIndex s)
      = postTriggerSamples (bufferIndex s) (triggerIndex s) + 1"
    using assms(1,2,3) tr by (intro post_next_cursor) (simp_all add: BUFFER_SIZE_def)
  have "\<not> snapshot_due (at_cursor inp s)"
  proof
    assume "snapshot_due (at_cursor inp s)"
    then have "\<not> triggered (after_tick inp s)"
      by (simp add: after_tick_def extracted_def)
    with assms(4) show False by simp
  qed
  then have "postTriggerSamples (next_cursor (bufferIndex s)) (triggerIndex s) < 128"
    using tr by (simp add: snapshot_due_def at DISPLAY_SAMPLES_def)
  moreover have "after_tick inp s = (at_cursor inp s)\<lparr>lastSampleTime := micros inp\<rparr>"
    using \<open>\<not> snapshot_due (at_cursor inp s)\<close> by (simp add: after_tick_def extracted_unchanged)
  ultimately show ?thesis
    using p by (simp add: at)
qed

lemma reachable_pending_distance:
  "reachable s \<Longrightarrow> triggered s \<longrightarrow>
     1 \<le> postTriggerSamples (bufferIndex s) (triggerIndex s) \<and>
     postTriggerSamples (bufferIndex s) (triggerIndex s) < 128"
proof (induction rule: reachable.induct)
  case (start t0)
  show ?case by (simp add: initial_state_def)
next
  case (iteration s inp s')
  have ok: "state_ok s" using iteration.hyps(1) by (rule reachable_state_ok)
  then have s': "s' = iterated inp s"
    using iteration.hyps(2) by (simp add: acquisition_iteration_iterated)
  have b: "bufferIndex s < BUFFER_SIZE" using ok by (simp add: state_ok_def)
  have t: "triggerIndex s < BUFFER_SIZE" using iteration.hyps(1) by (rule reachable_triggerIndex)
  show ?case
  proof (cases "s' = s")
    case True
    then show ?thesis using iteration.IH by simp
  next
    case False
    then have "s' = after_tick inp s" using s' by (simp add: iterated_def split: if_splits)
    then show ?thesis
      using after_tick_pending_distance [OF b t iteration.IH, of inp] by blast
  qed
next
  case (command s c cfg)
  then show ?case by simp
next
  case (time_base s h)
  then show ?case by simp
qed

text \<open>
  So, in every reachable state, a tick that extracts a snapshot does so with the cursor
  exactly 128 positions after the trigger position, and the last 64 entries of each
  display row are the ring entries at the 64 positions from the new cursor on, as they
  were before the tick: the positions the following ticks will write.
\<close>

lemma extraction_tail_ahead_of_cursor:
  assumes "reachable s" "acquisition_tick inp s = Some s'"
    "displayBuffer s' \<noteq> displayBuffer s" "ch < 4" "j < 64"
  shows "postTriggerSamples (bufferIndex s') (triggerIndex s') = 128"
    "displayBuffer s' ! ch ! (192 + j)
       = sampleBuffer s ! ch ! ((bufferIndex s + 1 + j) mod 512)"
    "displayBuffer s' ! ch ! (192 + j) = sampleBuffer s' ! ch ! ((bufferIndex s' + j) mod 512)"
proof -
  have ok: "state_ok s" using assms(1) by (rule reachable_state_ok)
  then have s': "s' = after_tick inp s" using assms(2) by (simp add: acquisition_tick_closed)
  have b: "bufferIndex s < BUFFER_SIZE" using ok by (simp add: state_ok_def)
  have t: "triggerIndex s < BUFFER_SIZE" using assms(1) by (rule reachable_triggerIndex)
  have due: "snapshot_due (at_cursor inp s)"
  proof (rule ccontr)
    assume "\<not> snapshot_due (at_cursor inp s)"
    then have "displayBuffer s' = displayBuffer s"
      by (simp add: s' after_tick_def extracted_unchanged at_cursor_fields)
    with assms(3) show False by simp
  qed
  have bi: "bufferIndex s' = next_cursor (bufferIndex s)"
    by (simp add: s' after_tick_def extracted_fields at_cursor_def advance_cursor_next
        auto_trigger_def detect_def)
  have ti: "triggerIndex s' = triggerIndex (at_cursor inp s)"
    by (simp add: s' after_tick_def extracted_fields)
  have nt: "\<not> (edge_detected (s\<lparr>sampleBuffer := ring_after inp s\<rparr>) \<or>
     (triggerMode (config s) = TRIG_AUTO \<and> \<not> triggered s \<and>
      autoTriggerTimeout (config s) < micros inp - autoTriggerStart s))"
  proof
    assume n: "edge_detected (s\<lparr>sampleBuffer := ring_after inp s\<rparr>) \<or>
     (triggerMode (config s) = TRIG_AUTO \<and> \<not> triggered s \<and>
      autoTriggerTimeout (config s) < micros inp - autoTriggerStart s)"
    have "postTriggerSamples (bufferIndex (at_cursor inp s)) (triggerIndex (at_cursor inp s)) = 1"
      using at_cursor_trigger_now(2,3) [OF n] post_after_trigger [OF b] by simp
    with due show False by (simp add: snapshot_due_def DISPLAY_SAMPLES_def)
  qed
  have tr: "triggered s"
    using due nt
    by (auto simp: snapshot_due_def at_cursor_def advance_cursor_next auto_trigger_def detect_def
        split: if_splits)
  have at: "at_cursor inp s = s\<lparr>sampleBuffer := ring_after inp s,
      bufferIndex := next_cursor (bufferIndex s)\<rparr>"
    using nt tr by (simp add: at_cursor_def detect_def auto_trigger_def advance_cursor_next)
  have lt: "postTriggerSamples (bufferIndex s) (triggerIndex s) < 128"
    using reachable_pending_distance [OF assms(1)] tr by simp
  then have p: "postTriggerSamples (next_cursor (bufferIndex s)) (triggerIndex s)
      = postTriggerSamples (bufferIndex s) (triggerIndex s) + 1"
    using b t by (intro post_next_cursor) (simp_all add: BUFFER_SIZE_def)
  have ge: "128 \<le> postTriggerSamples (next_cursor (bufferIndex s)) (triggerIndex s)"
    using due by (simp add: snapshot_due_def at DISPLAY_SAMPLES_def)
  show p128: "postTriggerSamples (bufferIndex s') (triggerIndex s') = 128"
    using p lt ge by (simp add: bi ti at)
  have nb: "next_cursor (bufferIndex s) < 512"
    using b by (simp add: next_cursor_cases BUFFER_SIZE_def)
  have "postTriggerSamples (next_cursor (bufferIndex s)) (triggerIndex s)
      = (next_cursor (bufferIndex s) + 512 - triggerIndex s) mod 512"
    using nb t by (intro postTriggerSamples_ring) (simp_all add: BUFFER_SIZE_def)
  then have m: "(next_cursor (bufferIndex s) + 512 - triggerIndex s) mod 512 = 128"
    using p128 by (simp add: bi ti at)
  have cur: "next_cursor (bufferIndex s) = (triggerIndex s + 128) mod 512"
  proof -
    have "(triggerIndex s + 128) mod 512
        = (triggerIndex s + (next_cursor (bufferIndex s) + 512 - triggerIndex s) mod 512) mod 512"
      by (simp only: m)
    also have "\<dots> = (triggerIndex s + (next_cursor (bufferIndex s) + 512 - triggerIndex s)) mod 512"
      by (simp only: mod_add_right_eq)
    also have "triggerIndex s + (next_cursor (bufferIndex s) + 512 - triggerIndex s)
        = next_cursor (bufferIndex s) + 512"
      using t by (simp add: BUFFER_SIZE_def)
    also have "(next_cursor (bufferIndex s) + 512) mod 512 = next_cursor (bufferIndex s)"
      using nb by simp
    finally show ?thesis by simp
  qed
  have d: "displayBuffer s' = snapshot (at_cursor inp s)"
    using due by (simp add: s' after_tick_def extracted_def)
  have tail: "snapshot (at_cursor inp s) ! ch ! (192 + j)
      = sampleBuffer (at_cursor inp s) ! ch ! ((bufferIndex (at_cursor inp s) + j) mod 512)"
    using t cur assms(4,5) by (intro window_tail_ahead_of_cursor) (simp_all add: at)
  have sb: "sampleBuffer s' = ring_after inp s"
    by (simp add: s' after_tick_def extracted_fields at_cursor_fields)
  show 3: "displayBuffer s' ! ch ! (192 + j) = sampleBuffer s' ! ch ! ((bufferIndex s' + j) mod 512)"
    using tail by (simp add: d sb bi at)
  have idx: "(next_cursor (bufferIndex s) + j) mod 512 = (bufferIndex s + 1 + j) mod 512"
  proof (cases "bufferIndex s = 511")
    case True
    have "(511 + 1 + j) mod 512 = (j + 512) mod 512" by (simp add: add.commute)
    also have "\<dots> = j mod 512" by (simp only: mod_add_self2)
    finally show ?thesis using True by (simp add: next_cursor_simps)
  next
    case False
    then show ?thesis using b by (simp add: next_cursor_less BUFFER_SIZE_def)
  qed
  have ne: "(bufferIndex s + 1 + j) mod 512 \<noteq> bufferIndex s"
  proof (cases "bufferIndex s + 1 + j < 512")
    case True
    then show ?thesis by simp
  next
    case False
    then have "bufferIndex s + 1 + j = (bufferIndex s + 1 + j - 512) + 512" by simp
    then have "(bufferIndex s + 1 + j) mod 512 = (bufferIndex s + 1 + j - 512) mod 512"
      by (metis mod_add_self2)
    also have "\<dots> = bufferIndex s + 1 + j - 512"
      using b assms(5) by (simp add: BUFFER_SIZE_def)
    finally show ?thesis using assms(5) False by simp
  qed
  have "ring_after inp s ! ch ! ((bufferIndex s + 1 + j) mod 512)
      = sampleBuffer s ! ch ! ((bufferIndex s + 1 + j) mod 512)"
    using assms(4) ne by (simp add: nth_ring_after)
  then show "displayBuffer s' ! ch ! (192 + j)
       = sampleBuffer s ! ch ! ((bufferIndex s + 1 + j) mod 512)"
    using 3 by (simp add: sb bi idx)
qed




text \<open>
  The detector and the waiting flag.  When the mode is not AUTO, or the waiting flag is
  clear, a qualifying pair at a cursor position beyond 2 on the enabled trigger source
  takes the trigger and clears the waiting flag.  In AUTO mode with the waiting flag
  set the detector does not run, and no pass of the loop clears the flag: once an
  extraction has set it, no edge is detected on any later pass, whatever the readings.
\<close>

lemma armed_edge_triggers:
  assumes "state_ok s" "triggerMode (config s) \<noteq> TRIG_AUTO \<or> \<not> waitingForTrigger s"
    "bufferIndex s > 2" "channelEnabled (config s) ! (triggerChannel (config s) - 1)"
    "triggerEvent (triggerSlope (config s))
        (sampleBuffer s ! (triggerChannel (config s) - 1) ! (bufferIndex s - 1))
        (stored_sample inp (config s) (triggerChannel (config s) - 1))
        (triggerADC (triggerLevel (config s)))"
  shows "\<exists>s'. acquisition_tick inp s = Some s' \<and> triggered s' \<and>
     triggerIndex s' = bufferIndex s \<and> \<not> waitingForTrigger s'"
proof -
  have "edge_detected (s\<lparr>sampleBuffer := ring_after inp s\<rparr>)"
    using edge_detected_sampled [OF assms(1), of inp] assms(2-5) by blast
  moreover have "bufferIndex s < BUFFER_SIZE" using assms(1) by (simp add: state_ok_def)
  ultimately show ?thesis
    using assms(1) by (simp add: acquisition_tick_closed after_tick_trigger_now)
qed

lemma auto_waiting_deaf:
  assumes "state_ok s" "triggerMode (config s) = TRIG_AUTO" "waitingForTrigger s"
  shows "trigger_logic t s = Some s"
  using assms by (simp add: trigger_logic_closed detect_def edge_detected_def)

lemma auto_waiting_iterated:
  assumes "triggerMode (config s) = TRIG_AUTO" "waitingForTrigger s"
  shows "triggerMode (config (iterated inp s)) = TRIG_AUTO \<and> waitingForTrigger (iterated inp s)"
  using assms
  by (simp add: iterated_def after_tick_def extracted_def at_cursor_def advance_cursor_next
      auto_trigger_def detect_def edge_detected_def)

lemma auto_waiting_persists:
  assumes "state_ok s" "triggerMode (config s) = TRIG_AUTO" "waitingForTrigger s"
  shows "\<exists>s'. acquisition_run inps s = Some s' \<and> state_ok s' \<and>
     triggerMode (config s') = TRIG_AUTO \<and> waitingForTrigger s' \<and>
     trigger_logic t s' = Some s'"
  using assms
proof (induction inps arbitrary: s)
  case Nil
  then show ?case by (simp add: auto_waiting_deaf)
next
  case (Cons inp inps)
  have "state_ok (iterated inp s)" using Cons.prems(1) by (rule state_ok_iterated)
  moreover have "triggerMode (config (iterated inp s)) = TRIG_AUTO"
    "waitingForTrigger (iterated inp s)"
    using auto_waiting_iterated [OF Cons.prems(2,3), of inp] by simp_all
  ultimately have "\<exists>s'. acquisition_run inps (iterated inp s) = Some s' \<and> state_ok s' \<and>
     triggerMode (config s') = TRIG_AUTO \<and> waitingForTrigger s' \<and>
     trigger_logic t s' = Some s'"
    by (rule Cons.IH)
  then show ?case
    using Cons.prems(1) by (simp add: acquisition_iteration_iterated)
qed

lemma window_zero: "window (replicate 512 0) start = replicate 256 0"
proof (rule nth_equalityI)
  show "length (window (replicate 512 0) start) = length (replicate 256 (0::u16))"
    by (simp add: DISPLAY_SAMPLES_def)
next
  fix i assume "i < length (window (replicate 512 0) start)"
  then have i: "i < 256" by (simp add: DISPLAY_SAMPLES_def)
  have "(start + int i) mod 512 < 512" "0 \<le> (start + int i) mod 512" by simp_all
  then have "nat ((start + int i) mod 512) < 512" by simp
  then show "window (replicate 512 0) start ! i = replicate 256 0 ! i"
    using i by (simp add: nth_window DISPLAY_SAMPLES_def BUFFER_SIZE_def)
qed

lemma auto_capture_tick: "iterated (reading 102020 0) auto_capture_next = auto_after_capture"
proof -
  have "iterated (reading 102020 0) auto_capture_next
      = auto_capture_next\<lparr>sampleBuffer := ring_after (reading 102020 0) auto_capture_next,
        displayBuffer := snapshot (auto_capture_next
          \<lparr>sampleBuffer := ring_after (reading 102020 0) auto_capture_next\<rparr>),
        bufferIndex := 131, bufferReady := True, triggered := False,
        lastSampleTime := 102020, waitingForTrigger := True\<rparr>"
    by (simp add: eval_defs auto_capture_next_def example_defs snapshot_def)
  moreover have ring: "ring_after (reading 102020 0) auto_capture_next
      = replicate 4 (replicate 512 0)"
    using ring_after_replicate [of auto_capture_next "replicate 512 0" 102020 0] initial_coupling
    by (simp add: replicate_update_same auto_capture_next_def initial_state_def BUFFER_SIZE_def)
  moreover have "snapshot (auto_capture_next\<lparr>sampleBuffer := replicate 4 (replicate 512 0)\<rparr>)
      = replicate 4 (replicate 256 0)"
    using snapshot_replicate [of "auto_capture_next\<lparr>sampleBuffer := replicate 4 (replicate 512 0)\<rparr>"
        "replicate 512 0"]
    by (simp add: window_zero)
  ultimately show ?thesis
    by (simp add: auto_after_capture_def auto_capture_next_def initial_state_def
        BUFFER_SIZE_def DISPLAY_SAMPLES_def)
qed

lemma reachable_auto_after_capture: "reachable auto_after_capture"
  using reachable_auto_capture_next auto_capture_tick by (rule reachable_step)

lemma reachable_norm_after_capture: "reachable norm_after_capture"
  unfolding norm_after_capture_def
  using reachable.command [OF reachable_auto_after_capture, of "TMode ''NORM''"] by simp

section \<open>The claims\<close>

text \<open>
  C1.  The code at the failing inputs.  After \<open>TMODE SINGLE\<close> and \<open>STOP\<close> at start-up
  the running flag is clear, and the next pass of the loop still stores the reading 1234
  at ring position 0 and moves the cursor to 1.  The state \<open>single_second_capture\<close>
  is reached in SINGLE mode without any command after \<open>TMODE SINGLE\<close>: a first
  capture has filled the display buffer and cleared the running flag, sampling went on,
  and a second trigger is pending.  The pass at cursor 258 overwrites the display
  buffer (index 64 of channel 1 changes from 1111 to 4000) and moves the cursor on, with
  the running flag still clear.  In AUTO mode a pass with the running flag clear changes
  nothing.
\<close>

theorem single_mode_samples_while_stopped:
  "reachable single_stopped \<and> \<not> running (config single_stopped) \<and>
   triggerMode (config single_stopped) = TRIG_SINGLE \<and> bufferIndex single_stopped = 0 \<and>
   map_option bufferIndex (acquisition_iteration (reading 15 1234) single_stopped) = Some 1 \<and>
   map_option (ring_sample 0 0) (acquisition_iteration (reading 15 1234) single_stopped)
     = Some 1234 \<and>
   reachable single_second_capture \<and> \<not> running (config single_second_capture) \<and>
   triggerMode (config single_second_capture) = TRIG_SINGLE \<and>
   bufferReady single_second_capture \<and> display_sample 0 64 single_second_capture = 1111 \<and>
   map_option (display_sample 0 64)
     (acquisition_iteration (reading 3885 0) single_second_capture) = Some 4000 \<and>
   map_option bufferIndex
     (acquisition_iteration (reading 3885 0) single_second_capture) = Some 259 \<and>
   map_option running (map_option config
     (acquisition_iteration (reading 3885 0) single_second_capture)) = Some False \<and>
   acquisition_iteration (reading 15 1234)
     ((initial_state 0)\<lparr>config := fst (stop_cmd initial_config)\<rparr>)
     = Some ((initial_state 0)\<lparr>config := fst (stop_cmd initial_config)\<rparr>)"
proof -
  have ok: "state_ok single_stopped"
    using reachable_single_stopped by (rule reachable_state_ok)
  define s1 where "s1 = iterated (reading 15 1234) single_stopped"
  define s2 where "s2 = iterated (reading 3885 0) single_second_capture"
  have c: "config single_stopped = initial_config\<lparr>triggerMode := TRIG_SINGLE, running := False\<rparr>"
    by (simp add: single_stopped_def stop_cmd_def parseTriggerMode_def)
  have s1: "s1 = single_stopped\<lparr>sampleBuffer := ring_after (reading 15 1234) single_stopped,
        bufferIndex := 1, lastSampleTime := 15\<rparr>"
    by (simp add: s1_def eval_defs single_stopped_def stop_cmd_def parseTriggerMode_def
        example_defs)
  have s2: "s2 = single_second_capture
       \<lparr>sampleBuffer := ring_after (reading 3885 0) single_second_capture,
        displayBuffer := snapshot (single_second_capture
          \<lparr>sampleBuffer := ring_after (reading 3885 0) single_second_capture\<rparr>),
        bufferIndex := 259, bufferReady := True, triggered := False,
        lastSampleTime := 3885, waitingForTrigger := True\<rparr>"
    by (simp add: s2_def eval_defs single_second_capture_def example_defs snapshot_def)
  have r1: "acquisition_iteration (reading 15 1234) single_stopped = Some s1"
    by (simp add: acquisition_iteration_iterated ok s1_def)
  have r2: "acquisition_iteration (reading 3885 0) single_second_capture = Some s2"
    by (simp add: acquisition_iteration_iterated state_ok_single_second_capture s2_def)
  have "state_ok ((initial_state 0)\<lparr>config := fst (stop_cmd initial_config)\<rparr>)"
    using state_ok_initial [of 0]
    by (simp add: state_ok_def buffers_ok_def config_ok_def stop_cmd_def initial_state_def)
  then have r3: "acquisition_iteration (reading 15 1234)
     ((initial_state 0)\<lparr>config := fst (stop_cmd initial_config)\<rparr>)
     = Some ((initial_state 0)\<lparr>config := fst (stop_cmd initial_config)\<rparr>)"
    by (simp add: acquisition_iteration_iterated iterated_def stop_cmd_def initial_config_def)
  have "\<not> running (config single_stopped)" "triggerMode (config single_stopped) = TRIG_SINGLE"
    "bufferIndex single_stopped = 0"
    by (simp_all add: c) (simp add: single_stopped_def initial_state_def)
  moreover have "bufferIndex s1 = 1" "ring_sample 0 0 s1 = 1234"
    by (simp_all add: s1 ring_sample_def nth_ring_after stored_sample_def c)
       (simp add: single_stopped_def example_defs)
  moreover have "\<not> running (config single_second_capture)"
    "triggerMode (config single_second_capture) = TRIG_SINGLE"
    "bufferReady single_second_capture" "display_sample 0 64 single_second_capture = 1111"
    by (simp_all add: single_second_capture_def example_defs display_sample_def)
  moreover have "bufferIndex s2 = 259" "running (config s2) = False"
    by (simp_all add: s2) (simp add: single_second_capture_def)
  moreover have "display_sample 0 64 s2 = 4000"
    by (simp add: s2 display_sample_def snapshot_nth nth_ring_after
        single_second_capture_def example_defs)
  ultimately show ?thesis
    using reachable_single_stopped reachable_single_second_capture unfolding r1 r2 r3 by simp
qed

text \<open>
  C2.  The code at the failing input.  In a state reached from start-up with the
  start-up configuration (AUTO, channel 1 enabled, threshold 37, rising slope) a
  trigger at ring position 3 is pending and the cursor is at 130.  The tick at time
  102020 reads 0 and extracts the snapshot, which leaves the state
  \<open>auto_after_capture\<close> with the waiting flag set.  The next tick, at cursor position
  131 and time 102035, reads 4000, so that channel 1 crosses the threshold upwards; the
  timeout has not expired.  The triggered flag stays clear and the waiting flag stays
  set.  From the same state after the command \<open>TMODE NORM\<close>, the same tick takes the
  trigger at position 131 and clears the waiting flag.
\<close>

theorem auto_mode_not_rearmed:
  "reachable auto_capture_next \<and> triggerMode (config auto_capture_next) = TRIG_AUTO \<and>
   channelEnabled (config auto_capture_next) ! (triggerChannel (config auto_capture_next) - 1) \<and>
   map_option bufferReady (acquisition_run [reading 102020 0] auto_capture_next) = Some True \<and>
   map_option (display_sample 0 64) (acquisition_run [reading 102020 0] auto_capture_next)
     = Some (ring_sample 0 3 auto_capture_next) \<and>
   map_option bufferIndex (acquisition_run [reading 102020 0] auto_capture_next) = Some 131 \<and>
   map_option (ring_sample 0 130) (acquisition_run [reading 102020 0] auto_capture_next)
     = Some 0 \<and>
   triggerEvent (triggerSlope (config auto_capture_next)) 0 4000
     (triggerADC (triggerLevel (config auto_capture_next))) \<and>
   map_option (ring_sample 0 131)
     (acquisition_run [reading 102020 0, reading 102035 4000] auto_capture_next) = Some 4000 \<and>
   map_option triggered
     (acquisition_run [reading 102020 0, reading 102035 4000] auto_capture_next) = Some False \<and>
   map_option waitingForTrigger
     (acquisition_run [reading 102020 0, reading 102035 4000] auto_capture_next) = Some True \<and>
   map_option bufferIndex
     (acquisition_run [reading 102020 0, reading 102035 4000] auto_capture_next) = Some 132 \<and>
   acquisition_run [reading 102020 0] auto_capture_next = Some auto_after_capture \<and>
   reachable norm_after_capture \<and>
   config norm_after_capture = (config auto_after_capture)\<lparr>triggerMode := TRIG_NORMAL\<rparr> \<and>
   waitingForTrigger norm_after_capture \<and> \<not> triggered norm_after_capture \<and>
   bufferIndex norm_after_capture = 131 \<and>
   map_option (ring_sample 0 131)
     (acquisition_iteration (reading 102035 4000) norm_after_capture) = Some 4000 \<and>
   map_option triggered
     (acquisition_iteration (reading 102035 4000) norm_after_capture) = Some True \<and>
   map_option triggerIndex
     (acquisition_iteration (reading 102035 4000) norm_after_capture) = Some 131 \<and>
   map_option waitingForTrigger
     (acquisition_iteration (reading 102035 4000) norm_after_capture) = Some False"
proof -
  define s1 where "s1 = iterated (reading 102020 0) auto_capture_next"
  define s2 where "s2 = iterated (reading 102035 4000) s1"
  define n2 where "n2 = iterated (reading 102035 4000) norm_after_capture"
  have s1: "s1 = auto_capture_next\<lparr>sampleBuffer := ring_after (reading 102020 0) auto_capture_next,
        displayBuffer := snapshot (auto_capture_next
          \<lparr>sampleBuffer := ring_after (reading 102020 0) auto_capture_next\<rparr>),
        bufferIndex := 131, bufferReady := True, triggered := False,
        lastSampleTime := 102020, waitingForTrigger := True\<rparr>"
    by (simp add: s1_def eval_defs auto_capture_next_def example_defs snapshot_def)
  have s2: "s2 = s1\<lparr>sampleBuffer := ring_after (reading 102035 4000) s1,
        bufferIndex := 132, lastSampleTime := 102035\<rparr>"
    unfolding s2_def by (simp add: s1 eval_defs auto_capture_next_def example_defs)
  have n2: "n2 = norm_after_capture
       \<lparr>sampleBuffer := ring_after (reading 102035 4000) norm_after_capture,
        bufferIndex := 132, triggerIndex := 131, triggered := True,
        lastSampleTime := 102035, autoTriggerStart := 102035, waitingForTrigger := False\<rparr>"
    unfolding n2_def
    by (simp add: eval_defs norm_after_capture_def auto_after_capture_def auto_capture_next_def
        parseTriggerMode_def example_defs)
  have r1: "acquisition_run [reading 102020 0] auto_capture_next = Some s1"
    by (simp add: acquisition_run_closed state_ok_auto_capture_next s1_def
        del: acquisition_run.simps)
  have r2: "acquisition_run [reading 102020 0, reading 102035 4000] auto_capture_next = Some s2"
    by (simp add: acquisition_run_closed state_ok_auto_capture_next s1_def s2_def
        del: acquisition_run.simps)
  have r3: "acquisition_iteration (reading 102035 4000) norm_after_capture = Some n2"
    using reachable_state_ok [OF reachable_norm_after_capture]
    by (simp add: acquisition_iteration_iterated n2_def)
  have e: "s1 = auto_after_capture"
    unfolding s1_def by (rule auto_capture_tick)
  have "bufferReady s1" "bufferIndex s1 = 131" "triggered s2 = False" "waitingForTrigger s2"
    "bufferIndex s2 = 132"
    by (simp_all add: s2 s1)
  moreover have "ring_sample 0 130 s1 = 0" "ring_sample 0 131 s2 = 4000"
    by (simp_all add: s2 s1 ring_sample_def nth_ring_after stored_sample_def
        auto_capture_next_def example_defs)
  moreover have "display_sample 0 64 s1 = ring_sample 0 3 auto_capture_next"
    by (simp add: s1 display_sample_def ring_sample_def snapshot_nth nth_ring_after
        auto_capture_next_def example_defs)
  moreover have "triggerMode (config auto_capture_next) = TRIG_AUTO"
    "channelEnabled (config auto_capture_next) ! (triggerChannel (config auto_capture_next) - 1)"
    "triggerEvent (triggerSlope (config auto_capture_next)) 0 4000
       (triggerADC (triggerLevel (config auto_capture_next)))"
    by (simp_all add: auto_capture_next_def example_defs triggerEvent_def triggerADC_def)
  moreover have "reachable auto_capture_next"
    by (rule reachable_auto_capture_next)
  moreover have "config norm_after_capture = (config auto_after_capture)\<lparr>triggerMode := TRIG_NORMAL\<rparr>"
    "waitingForTrigger norm_after_capture" "\<not> triggered norm_after_capture"
    "bufferIndex norm_after_capture = 131"
    by (simp_all add: norm_after_capture_def auto_after_capture_def parseTriggerMode_def)
  moreover have "triggered n2" "triggerIndex n2 = 131" "\<not> waitingForTrigger n2"
    by (simp_all add: n2)
  moreover have "ring_sample 0 131 n2 = 4000"
    by (simp add: n2 ring_sample_def nth_ring_after stored_sample_def norm_after_capture_def
        auto_after_capture_def auto_capture_next_def parseTriggerMode_def example_defs)
  ultimately show ?thesis
    using reachable_norm_after_capture e unfolding r1 r2 r3 by simp
qed

text \<open>
  C3.  As stated the claim fails: the third tick after start-up (cursor position 2) is
  not examined either.  Channel 1 reads 0, 0, 4000 on the first three ticks, which
  crosses the start-up threshold of 37 upwards between the second and the third sample,
  and no trigger is taken.
\<close>

theorem third_tick_not_examined:
  "map_option bufferIndex
     (acquisition_run [reading 15 0, reading 30 0] (initial_state 0)) = Some 2 \<and>
   map_option triggered
     (acquisition_run [reading 15 0, reading 30 0, reading 45 4000] (initial_state 0))
     = Some False \<and>
   map_option (ring_sample 0 1)
     (acquisition_run [reading 15 0, reading 30 0, reading 45 4000] (initial_state 0))
     = Some 0 \<and>
   map_option (ring_sample 0 2)
     (acquisition_run [reading 15 0, reading 30 0, reading 45 4000] (initial_state 0))
     = Some 4000 \<and>
   triggerEvent (triggerSlope initial_config) 0 4000 (triggerADC (triggerLevel initial_config)) \<and>
   channelEnabled initial_config ! (triggerChannel initial_config - 1) \<and>
   \<not> waitingForTrigger (initial_state 0)"
proof -
  define s1 where "s1 = iterated (reading 15 0) (initial_state 0)"
  define s2 where "s2 = iterated (reading 30 0) s1"
  define s3 where "s3 = iterated (reading 45 4000) s2"
  have s1: "s1 = (initial_state 0)\<lparr>sampleBuffer := ring_after (reading 15 0) (initial_state 0),
        bufferIndex := 1, lastSampleTime := 15\<rparr>"
    by (simp add: s1_def eval_defs example_defs)
  have s2: "s2 = s1\<lparr>sampleBuffer := ring_after (reading 30 0) s1,
        bufferIndex := 2, lastSampleTime := 30\<rparr>"
    unfolding s2_def by (simp add: s1 eval_defs example_defs)
  have s3: "s3 = s2\<lparr>sampleBuffer := ring_after (reading 45 4000) s2,
        bufferIndex := 3, lastSampleTime := 45\<rparr>"
    unfolding s3_def by (simp add: s2 s1 eval_defs example_defs)
  have r2: "acquisition_run [reading 15 0, reading 30 0] (initial_state 0) = Some s2"
    by (simp add: acquisition_run_closed state_ok_initial s1_def s2_def del: acquisition_run.simps)
  have r3: "acquisition_run [reading 15 0, reading 30 0, reading 45 4000] (initial_state 0) = Some s3"
    by (simp add: acquisition_run_closed state_ok_initial s1_def s2_def s3_def
        del: acquisition_run.simps)
  have "bufferIndex s2 = 2" by (simp add: s2)
  moreover have "triggered s3 = False" by (simp add: s3 s2 s1 initial_state_def)
  moreover have "ring_sample 0 1 s3 = 0"
    by (simp add: s3 s2 s1 ring_sample_def nth_ring_after stored_sample_def example_defs)
  moreover have "ring_sample 0 2 s3 = 4000"
    by (simp add: s3 s2 s1 ring_sample_def nth_ring_after stored_sample_def example_defs)
  moreover have "triggerEvent (triggerSlope initial_config) 0 4000
      (triggerADC (triggerLevel initial_config))"
    "channelEnabled initial_config ! (triggerChannel initial_config - 1)"
    "\<not> waitingForTrigger (initial_state 0)"
    by (simp_all add: example_defs triggerEvent_def triggerADC_def)
  ultimately show ?thesis unfolding r2 r3 by simp
qed

text \<open>
  C3, amended.  Edge detection is attempted exactly on the ticks whose cursor position
  is greater than 2 (with the trigger source enabled and the detector armed).  At
  cursor positions 0, 1 and 2 the trigger logic leaves the state as it is, whatever the
  samples are, on every revolution of the ring; in a mode other than AUTO such a tick
  cannot set the triggered flag.  Beyond position 2 the pair examined is the sample at
  the cursor and the one at cursor - 1, read without wrap-around.
\<close>

theorem detection_only_beyond_position_2:
  assumes "state_ok s"
  shows "(bufferIndex s \<le> 2 \<longrightarrow> trigger_logic t s = Some s) \<and>
    (bufferIndex s \<le> 2 \<and> \<not> triggered s \<and> triggerMode (config s) \<noteq> TRIG_AUTO \<longrightarrow>
       (\<exists>s'. acquisition_tick inp s = Some s' \<and> \<not> triggered s')) \<and>
    (bufferIndex s > 2 \<and> (triggerMode (config s) \<noteq> TRIG_AUTO \<or> \<not> waitingForTrigger s) \<and>
     channelEnabled (config s) ! (triggerChannel (config s) - 1) \<longrightarrow>
     trigger_logic t s =
       Some (if triggerEvent (triggerSlope (config s))
                 (sampleBuffer s ! (triggerChannel (config s) - 1) ! (bufferIndex s - 1))
                 (sampleBuffer s ! (triggerChannel (config s) - 1) ! bufferIndex s)
                 (triggerADC (triggerLevel (config s)))
             then s\<lparr>triggered := True, triggerIndex := bufferIndex s,
                     waitingForTrigger := False, autoTriggerStart := t\<rparr>
             else s))"
proof (intro conjI impI)
  assume "bufferIndex s \<le> 2"
  then show "trigger_logic t s = Some s"
    using assms by (simp add: trigger_logic_closed detect_low_cursor)
next
  assume "bufferIndex s \<le> 2 \<and> \<not> triggered s \<and> triggerMode (config s) \<noteq> TRIG_AUTO"
  then show "\<exists>s'. acquisition_tick inp s = Some s' \<and> \<not> triggered s'"
    using assms by (simp add: acquisition_tick_closed after_tick_low_cursor)
next
  assume "bufferIndex s > 2 \<and> (triggerMode (config s) \<noteq> TRIG_AUTO \<or> \<not> waitingForTrigger s) \<and>
     channelEnabled (config s) ! (triggerChannel (config s) - 1)"
  then show "trigger_logic t s =
       Some (if triggerEvent (triggerSlope (config s))
                 (sampleBuffer s ! (triggerChannel (config s) - 1) ! (bufferIndex s - 1))
                 (sampleBuffer s ! (triggerChannel (config s) - 1) ! bufferIndex s)
                 (triggerADC (triggerLevel (config s)))
             then s\<lparr>triggered := True, triggerIndex := bufferIndex s,
                     waitingForTrigger := False, autoTriggerStart := t\<rparr>
             else s)"
    using assms by (simp add: trigger_logic_closed detect_def edge_detected_def)
qed

theorem detection_only_beyond_position_2_witness:
  "state_ok edge_at_2 \<and> bufferIndex edge_at_2 \<le> 2 \<and> \<not> triggered edge_at_2 \<and>
   triggerMode (config edge_at_2) \<noteq> TRIG_AUTO \<and>
   triggerEvent (triggerSlope (config edge_at_2)) (ring_sample 0 1 edge_at_2)
     (ring_sample 0 2 edge_at_2) (triggerADC (triggerLevel (config edge_at_2))) \<and>
   trigger_logic 45 edge_at_2 = Some edge_at_2 \<and>
   (\<exists>s'. acquisition_tick (reading 45 4000) edge_at_2 = Some s' \<and> \<not> triggered s') \<and>
   state_ok scenario_2048 \<and> bufferIndex scenario_2048 > 2 \<and>
   triggerMode (config scenario_2048) \<noteq> TRIG_AUTO \<and>
   channelEnabled (config scenario_2048) ! (triggerChannel (config scenario_2048) - 1) \<and>
   trigger_logic 45 scenario_2048 =
     Some (scenario_2048\<lparr>triggered := True, triggerIndex := 10,
             waitingForTrigger := False, autoTriggerStart := 45\<rparr>)"
proof -
  have a: "bufferIndex edge_at_2 \<le> 2" "\<not> triggered edge_at_2"
    "triggerMode (config edge_at_2) \<noteq> TRIG_AUTO"
    "triggerEvent (triggerSlope (config edge_at_2)) (ring_sample 0 1 edge_at_2)
     (ring_sample 0 2 edge_at_2) (triggerADC (triggerLevel (config edge_at_2)))"
    by (simp_all add: edge_at_2_def example_defs ring_sample_def triggerEvent_def triggerADC_def)
  have b: "bufferIndex scenario_2048 > 2" "triggerMode (config scenario_2048) \<noteq> TRIG_AUTO"
    "channelEnabled (config scenario_2048) ! (triggerChannel (config scenario_2048) - 1)"
    "triggerEvent (triggerSlope (config scenario_2048))
       (sampleBuffer scenario_2048 ! (triggerChannel (config scenario_2048) - 1)
          ! (bufferIndex scenario_2048 - 1))
       (sampleBuffer scenario_2048 ! (triggerChannel (config scenario_2048) - 1)
          ! bufferIndex scenario_2048)
       (triggerADC (triggerLevel (config scenario_2048)))"
    "bufferIndex scenario_2048 = 10"
    by (simp_all add: scenario_2048_def example_defs triggerEvent_def triggerADC_def)
  show ?thesis
    using detection_only_beyond_position_2 [OF state_ok_edge_at_2, of 45 "reading 45 4000"]
      detection_only_beyond_position_2 [OF state_ok_scenario_2048, of 45]
      a b state_ok_edge_at_2 state_ok_scenario_2048
    by simp
qed

text \<open>
  C4.  With the level \<open>L\<close> (0..3300 mV) converted to the raw threshold
  \<open>T = L * 4095 div 3300\<close>, a rising trigger qualifies exactly when the previous sample
  is below \<open>T\<close> and the current one is at least \<open>T\<close>, a falling trigger exactly when the
  previous sample is above \<open>T\<close> and the current one is at most \<open>T\<close>; and on a tick where
  the detector runs, the trigger is taken at the cursor exactly when the pair of samples
  at the cursor qualifies.
\<close>

theorem trigger_qualification:
  assumes "unat level \<le> 3300"
  shows "unat (triggerADC level) = unat level * 4095 div 3300 \<and>
    (triggerEvent TRIG_RISING p c (triggerADC level) \<longleftrightarrow>
       unat p < unat level * 4095 div 3300 \<and> unat level * 4095 div 3300 \<le> unat c) \<and>
    (triggerEvent TRIG_FALLING p c (triggerADC level) \<longleftrightarrow>
       unat level * 4095 div 3300 < unat p \<and> unat c \<le> unat level * 4095 div 3300) \<and>
    (state_ok s \<and> triggerLevel (config s) = level \<and>
     (triggerMode (config s) \<noteq> TRIG_AUTO \<or> \<not> waitingForTrigger s) \<and> bufferIndex s > 2 \<and>
     channelEnabled (config s) ! (triggerChannel (config s) - 1) \<longrightarrow>
     trigger_logic t s =
       Some (if triggerEvent (triggerSlope (config s))
                 (sampleBuffer s ! (triggerChannel (config s) - 1) ! (bufferIndex s - 1))
                 (sampleBuffer s ! (triggerChannel (config s) - 1) ! bufferIndex s)
                 (triggerADC level)
             then s\<lparr>triggered := True, triggerIndex := bufferIndex s,
                     waitingForTrigger := False, autoTriggerStart := t\<rparr>
             else s))"
proof -
  note T = unat_triggerADC [OF assms]
  have "triggerEvent TRIG_RISING p c (triggerADC level) \<longleftrightarrow>
       unat p < unat level * 4095 div 3300 \<and> unat level * 4095 div 3300 \<le> unat c"
    by (simp add: triggerEvent_def word_less_nat_alt word_le_nat_alt T)
  moreover have "triggerEvent TRIG_FALLING p c (triggerADC level) \<longleftrightarrow>
       unat level * 4095 div 3300 < unat p \<and> unat c \<le> unat level * 4095 div 3300"
    by (simp add: triggerEvent_def word_less_nat_alt word_le_nat_alt T)
  moreover have "trigger_logic t s =
       Some (if triggerEvent (triggerSlope (config s))
                 (sampleBuffer s ! (triggerChannel (config s) - 1) ! (bufferIndex s - 1))
                 (sampleBuffer s ! (triggerChannel (config s) - 1) ! bufferIndex s)
                 (triggerADC level)
             then s\<lparr>triggered := True, triggerIndex := bufferIndex s,
                     waitingForTrigger := False, autoTriggerStart := t\<rparr>
             else s)"
    if "state_ok s" "triggerLevel (config s) = level"
      "triggerMode (config s) \<noteq> TRIG_AUTO \<or> \<not> waitingForTrigger s" "bufferIndex s > 2"
      "channelEnabled (config s) ! (triggerChannel (config s) - 1)"
    using that by (simp add: trigger_logic_closed detect_def edge_detected_def)
  ultimately show ?thesis using T by blast
qed

theorem trigger_qualification_witness:
  "unat (1651 :: u16) \<le> 3300 \<and> triggerADC 1651 = 2048 \<and>
   triggerEvent TRIG_RISING 2000 2100 (triggerADC 1651) \<and>
   \<not> triggerEvent TRIG_FALLING 2000 2100 (triggerADC 1651) \<and>
   state_ok scenario_2048 \<and> triggerLevel (config scenario_2048) = 1651 \<and>
   sampleBuffer scenario_2048 ! 0 ! 9 = 2000 \<and> sampleBuffer scenario_2048 ! 0 ! 10 = 2100 \<and>
   map_option triggered (trigger_logic 0 scenario_2048) = Some True \<and>
   map_option triggerIndex (trigger_logic 0 scenario_2048) = Some 10"
proof -
  have l: "unat (1651 :: u16) \<le> 3300" by simp
  have c: "triggerLevel (config scenario_2048) = 1651"
    "triggerMode (config scenario_2048) \<noteq> TRIG_AUTO"
    "bufferIndex scenario_2048 > 2"
    "channelEnabled (config scenario_2048) ! (triggerChannel (config scenario_2048) - 1)"
    "triggerSlope (config scenario_2048) = TRIG_RISING"
    "sampleBuffer scenario_2048 ! 0 ! 9 = 2000" "sampleBuffer scenario_2048 ! 0 ! 10 = 2100"
    "triggerChannel (config scenario_2048) = 1" "bufferIndex scenario_2048 = 10"
    by (simp_all add: scenario_2048_def initial_state_def initial_config_def BUFFER_SIZE_def)
  have a: "triggerADC 1651 = 2048" by (simp add: triggerADC_def)
  show ?thesis
    using trigger_qualification [OF l, of 2000 2100 scenario_2048 0] c state_ok_scenario_2048
    by (simp add: a triggerEvent_def)
qed

text \<open>
  C5.  The code at the failing input.  From start-up all converters read 0 on three
  ticks and 4000 from the fourth tick on; the fourth tick takes an edge trigger at ring
  position 3.  The state \<open>steady_capture_next\<close> is reached after 130 ticks: the ring
  holds 4000 at the positions 3 to 129 and its start-up value 0 elsewhere.  The next
  tick stores 4000 at position 130, which completes the count of 128, and extracts at
  once.  The display rows then hold 4000 at the indices 64 to 191 (the trigger sample
  and the 127 samples taken after it) and 0 at the indices 192 to 255: these are the
  ring positions 131 to 194, at and ahead of the cursor 131, which no tick has written
  yet.  Every sample taken after the trigger is 4000, and so is the one that the
  following tick stores at ring position 131, while display index 192 keeps showing 0.
\<close>

theorem display_tail_not_post_trigger:
  "reachable steady_capture_next \<and> triggered steady_capture_next \<and>
   triggerIndex steady_capture_next = 3 \<and> bufferIndex steady_capture_next = 130 \<and>
   sampleBuffer steady_capture_next
     = replicate 4 (replicate 3 0 @ replicate 127 4000 @ replicate 382 0) \<and>
   postTriggerSamples 131 3 = 128 \<and>
   map_option bufferReady (acquisition_iteration (reading 1965 4000) steady_capture_next)
     = Some True \<and>
   map_option triggered (acquisition_iteration (reading 1965 4000) steady_capture_next)
     = Some False \<and>
   map_option bufferIndex (acquisition_iteration (reading 1965 4000) steady_capture_next)
     = Some 131 \<and>
   map_option triggerIndex (acquisition_iteration (reading 1965 4000) steady_capture_next)
     = Some 3 \<and>
   map_option sampleBuffer (acquisition_iteration (reading 1965 4000) steady_capture_next)
     = Some (replicate 4 (replicate 3 0 @ replicate 128 4000 @ replicate 381 0)) \<and>
   map_option displayBuffer (acquisition_iteration (reading 1965 4000) steady_capture_next)
     = Some (replicate 4 (replicate 64 0 @ replicate 128 4000 @ replicate 64 0)) \<and>
   map_option (display_sample 0 64)
     (acquisition_iteration (reading 1965 4000) steady_capture_next) = Some 4000 \<and>
   map_option (display_sample 0 191)
     (acquisition_iteration (reading 1965 4000) steady_capture_next) = Some 4000 \<and>
   map_option (display_sample 0 192)
     (acquisition_iteration (reading 1965 4000) steady_capture_next) = Some 0 \<and>
   map_option (display_sample 0 255)
     (acquisition_iteration (reading 1965 4000) steady_capture_next) = Some 0 \<and>
   map_option (ring_sample 0 131)
     (acquisition_iteration (reading 1965 4000) steady_capture_next) = Some 0 \<and>
   map_option (ring_sample 0 131)
     (acquisition_run [reading 1965 4000, reading 1980 4000] steady_capture_next)
     = Some 4000 \<and>
   map_option (display_sample 0 192)
     (acquisition_run [reading 1965 4000, reading 1980 4000] steady_capture_next)
     = Some 0"
proof -
  define d :: "u16 list" where "d = replicate 64 0 @ replicate 128 4000 @ replicate 64 0"
  define s1 where "s1 = iterated (reading 1965 4000) steady_capture_next"
  define s2 where "s2 = iterated (reading 1980 4000) s1"
  have ok: "state_ok steady_capture_next"
    by (simp add: steady_capture_next_def state_ok_steady_state)
  have s1: "s1 = steady_capture_next
       \<lparr>sampleBuffer := replicate 4 (steady_row 128), displayBuffer := replicate 4 d,
        bufferIndex := 131, bufferReady := True, triggered := False,
        lastSampleTime := 1965, waitingForTrigger := True\<rparr>"
    unfolding s1_def d_def by (rule steady_capture_tick)
  have s2: "s2 = s1\<lparr>sampleBuffer := ring_after (reading 1980 4000) s1,
        bufferIndex := 132, lastSampleTime := 1980\<rparr>"
    unfolding s2_def
    by (simp add: s1 eval_defs steady_capture_next_def steady_state_def example_defs)
  have r1: "acquisition_iteration (reading 1965 4000) steady_capture_next = Some s1"
    by (simp add: acquisition_iteration_iterated ok s1_def)
  have r2: "acquisition_run [reading 1965 4000, reading 1980 4000] steady_capture_next = Some s2"
    by (simp add: acquisition_run_closed ok s1_def s2_def del: acquisition_run.simps)
  have rows: "steady_row 127 = replicate 3 0 @ replicate 127 4000 @ replicate 382 0"
    "steady_row 128 = replicate 3 0 @ replicate 128 4000 @ replicate 381 0"
    by (simp_all add: steady_row_def)
  have "triggered steady_capture_next" "triggerIndex steady_capture_next = 3"
    "bufferIndex steady_capture_next = 130"
    "sampleBuffer steady_capture_next
       = replicate 4 (replicate 3 0 @ replicate 127 4000 @ replicate 382 0)"
    by (simp_all add: steady_capture_next_def steady_state_def rows)
  moreover have "postTriggerSamples 131 3 = 128"
    by (simp add: postTriggerSamples_def)
  moreover have "bufferReady s1" "\<not> triggered s1" "bufferIndex s1 = 131" "triggerIndex s1 = 3"
    "sampleBuffer s1 = replicate 4 (replicate 3 0 @ replicate 128 4000 @ replicate 381 0)"
    "displayBuffer s1 = replicate 4 (replicate 64 0 @ replicate 128 4000 @ replicate 64 0)"
    by (simp_all add: s1 rows d_def) (simp add: steady_capture_next_def steady_state_def)
  moreover have "display_sample 0 64 s1 = 4000" "display_sample 0 191 s1 = 4000"
    "display_sample 0 192 s1 = 0" "display_sample 0 255 s1 = 0" "display_sample 0 192 s2 = 0"
    by (simp_all add: s2 s1 display_sample_def d_def nth_append)
  moreover have "ring_sample 0 131 s1 = 0"
    by (simp add: s1 ring_sample_def steady_row_nth)
  moreover have "ring_sample 0 131 s2 = 4000"
    by (simp add: s2 s1 ring_sample_def nth_ring_after stored_sample_def steady_row_length
        steady_capture_next_def steady_state_def example_defs)
  ultimately show ?thesis
    using reachable_steady_capture_next unfolding r1 r2 by simp
qed

text \<open>
  C6.  As stated the claim fails while a trigger is pending.  From start-up in AUTO
  mode channel 1 reads 0, 0, 0, 4000: the fourth tick (time 60, cursor 3) takes an
  edge trigger.  The fifth tick comes at time 200060, more than the timeout of 100000
  after the last trigger and with no edge in between (the samples are 4000 and 4000),
  but no trigger is forced at its cursor position 4: the trigger position stays 3 and
  the time stamp stays 60.
\<close>

theorem no_synthetic_trigger_while_pending:
  "triggerMode initial_config = TRIG_AUTO \<and>
   map_option triggerIndex
     (acquisition_run [reading 15 0, reading 30 0, reading 45 0, reading 60 4000]
        (initial_state 0)) = Some 3 \<and>
   map_option autoTriggerStart
     (acquisition_run [reading 15 0, reading 30 0, reading 45 0, reading 60 4000]
        (initial_state 0)) = Some 60 \<and>
   map_option bufferIndex
     (acquisition_run [reading 15 0, reading 30 0, reading 45 0, reading 60 4000]
        (initial_state 0)) = Some 4 \<and>
   autoTriggerTimeout initial_config < 200060 - 60 \<and>
   \<not> triggerEvent (triggerSlope initial_config) 4000 4000 (triggerADC (triggerLevel initial_config)) \<and>
   map_option triggerIndex
     (acquisition_run [reading 15 0, reading 30 0, reading 45 0, reading 60 4000,
        reading 200060 4000] (initial_state 0)) = Some 3 \<and>
   map_option autoTriggerStart
     (acquisition_run [reading 15 0, reading 30 0, reading 45 0, reading 60 4000,
        reading 200060 4000] (initial_state 0)) = Some 60 \<and>
   map_option bufferIndex
     (acquisition_run [reading 15 0, reading 30 0, reading 45 0, reading 60 4000,
        reading 200060 4000] (initial_state 0)) = Some 5"
proof -
  define s1 where "s1 = iterated (reading 15 0) (initial_state 0)"
  define s2 where "s2 = iterated (reading 30 0) s1"
  define s3 where "s3 = iterated (reading 45 0) s2"
  define s4 where "s4 = iterated (reading 60 4000) s3"
  define s5 where "s5 = iterated (reading 200060 4000) s4"
  have s1: "s1 = (initial_state 0)\<lparr>sampleBuffer := ring_after (reading 15 0) (initial_state 0),
        bufferIndex := 1, lastSampleTime := 15\<rparr>"
    by (simp add: s1_def eval_defs example_defs)
  have s2: "s2 = s1\<lparr>sampleBuffer := ring_after (reading 30 0) s1,
        bufferIndex := 2, lastSampleTime := 30\<rparr>"
    unfolding s2_def by (simp add: s1 eval_defs example_defs)
  have s3: "s3 = s2\<lparr>sampleBuffer := ring_after (reading 45 0) s2,
        bufferIndex := 3, lastSampleTime := 45\<rparr>"
    unfolding s3_def by (simp add: s2 s1 eval_defs example_defs)
  have s4: "s4 = s3\<lparr>sampleBuffer := ring_after (reading 60 4000) s3,
        bufferIndex := 4, triggerIndex := 3, triggered := True, lastSampleTime := 60,
        autoTriggerStart := 60\<rparr>"
    unfolding s4_def by (simp add: s3 s2 s1 eval_defs example_defs)
  have s5: "s5 = s4\<lparr>sampleBuffer := ring_after (reading 200060 4000) s4,
        bufferIndex := 5, lastSampleTime := 200060\<rparr>"
    unfolding s5_def by (simp add: s4 s3 s2 s1 eval_defs example_defs)
  have r4: "acquisition_run [reading 15 0, reading 30 0, reading 45 0, reading 60 4000]
        (initial_state 0) = Some s4"
    by (simp add: acquisition_run_closed state_ok_initial s1_def s2_def s3_def s4_def
        del: acquisition_run.simps)
  have r5: "acquisition_run [reading 15 0, reading 30 0, reading 45 0, reading 60 4000,
        reading 200060 4000] (initial_state 0) = Some s5"
    by (simp add: acquisition_run_closed state_ok_initial s1_def s2_def s3_def s4_def s5_def
        del: acquisition_run.simps)
  have "triggerIndex s4 = 3" "autoTriggerStart s4 = 60" "bufferIndex s4 = 4"
    "triggerIndex s5 = 3" "autoTriggerStart s5 = 60" "bufferIndex s5 = 5"
    by (simp_all add: s5 s4)
  moreover have "triggerMode initial_config = TRIG_AUTO"
    "autoTriggerTimeout initial_config < 200060 - 60"
    "\<not> triggerEvent (triggerSlope initial_config) 4000 4000 (triggerADC (triggerLevel initial_config))"
    by (simp_all add: example_defs triggerEvent_def triggerADC_def)
  ultimately show ?thesis unfolding r4 r5 by simp
qed

text \<open>
  C6, amended.  In AUTO mode, on a tick at which no trigger is pending (the triggered
  flag is clear) and more than the timeout has passed on the 32-bit microsecond clock
  since the last trigger or the start of the task, a trigger is taken at the cursor of
  that very tick, whether or not the trigger-source channel is enabled.  While a trigger
  is pending and no edge is detected, the trigger position and the time stamp are kept:
  no trigger is forced.  In NORMAL and SINGLE mode a tick sets the triggered flag only
  on a qualifying edge at a cursor position greater than 2 with the source enabled.
\<close>

theorem auto_trigger_when_idle:
  assumes "state_ok s"
  shows "(triggerMode (config s) = TRIG_AUTO \<and> \<not> triggered s \<and>
      autoTriggerTimeout (config s) < micros inp - autoTriggerStart s \<longrightarrow>
      (\<exists>s'. acquisition_tick inp s = Some s' \<and> triggered s' \<and>
         triggerIndex s' = bufferIndex s \<and> autoTriggerStart s' = micros inp)) \<and>
    (triggered s \<and>
     \<not> ((triggerMode (config s) \<noteq> TRIG_AUTO \<or> \<not> waitingForTrigger s) \<and> bufferIndex s > 2 \<and>
        channelEnabled (config s) ! (triggerChannel (config s) - 1) \<and>
        triggerEvent (triggerSlope (config s))
          (sampleBuffer s ! (triggerChannel (config s) - 1) ! (bufferIndex s - 1))
          (stored_sample inp (config s) (triggerChannel (config s) - 1))
          (triggerADC (triggerLevel (config s)))) \<longrightarrow>
      (\<exists>s'. acquisition_tick inp s = Some s' \<and> triggerIndex s' = triggerIndex s \<and>
         autoTriggerStart s' = autoTriggerStart s)) \<and>
    (triggerMode (config s) \<noteq> TRIG_AUTO \<and> \<not> triggered s \<longrightarrow>
      (\<exists>s'. acquisition_tick inp s = Some s' \<and>
         (triggered s' \<longrightarrow>
            bufferIndex s > 2 \<and> channelEnabled (config s) ! (triggerChannel (config s) - 1) \<and>
            triggerEvent (triggerSlope (config s))
              (sampleBuffer s ! (triggerChannel (config s) - 1) ! (bufferIndex s - 1))
              (stored_sample inp (config s) (triggerChannel (config s) - 1))
              (triggerADC (triggerLevel (config s))))))"
proof (intro conjI impI)
  assume "triggerMode (config s) = TRIG_AUTO \<and> \<not> triggered s \<and>
      autoTriggerTimeout (config s) < micros inp - autoTriggerStart s"
  moreover have "bufferIndex s < BUFFER_SIZE" using assms by (simp add: state_ok_def)
  ultimately show "\<exists>s'. acquisition_tick inp s = Some s' \<and> triggered s' \<and>
         triggerIndex s' = bufferIndex s \<and> autoTriggerStart s' = micros inp"
    using assms by (simp add: acquisition_tick_closed after_tick_trigger_now)
next
  assume "triggered s \<and>
     \<not> ((triggerMode (config s) \<noteq> TRIG_AUTO \<or> \<not> waitingForTrigger s) \<and> bufferIndex s > 2 \<and>
        channelEnabled (config s) ! (triggerChannel (config s) - 1) \<and>
        triggerEvent (triggerSlope (config s))
          (sampleBuffer s ! (triggerChannel (config s) - 1) ! (bufferIndex s - 1))
          (stored_sample inp (config s) (triggerChannel (config s) - 1))
          (triggerADC (triggerLevel (config s))))"
  then have "triggered s" "\<not> edge_detected (s\<lparr>sampleBuffer := ring_after inp s\<rparr>)"
    using edge_detected_sampled [OF assms, of inp] by blast+
  then show "\<exists>s'. acquisition_tick inp s = Some s' \<and> triggerIndex s' = triggerIndex s \<and>
         autoTriggerStart s' = autoTriggerStart s"
    using assms by (simp add: acquisition_tick_closed after_tick_pending)
next
  assume a: "triggerMode (config s) \<noteq> TRIG_AUTO \<and> \<not> triggered s"
  have "bufferIndex s > 2 \<and> channelEnabled (config s) ! (triggerChannel (config s) - 1) \<and>
            triggerEvent (triggerSlope (config s))
              (sampleBuffer s ! (triggerChannel (config s) - 1) ! (bufferIndex s - 1))
              (stored_sample inp (config s) (triggerChannel (config s) - 1))
              (triggerADC (triggerLevel (config s)))"
    if "triggered (after_tick inp s)"
    using after_tick_triggered_cases [OF that] a edge_detected_sampled [OF assms, of inp]
    by blast
  then show "\<exists>s'. acquisition_tick inp s = Some s' \<and>
         (triggered s' \<longrightarrow>
            bufferIndex s > 2 \<and> channelEnabled (config s) ! (triggerChannel (config s) - 1) \<and>
            triggerEvent (triggerSlope (config s))
              (sampleBuffer s ! (triggerChannel (config s) - 1) ! (bufferIndex s - 1))
              (stored_sample inp (config s) (triggerChannel (config s) - 1))
              (triggerADC (triggerLevel (config s))))"
    using assms by (simp add: acquisition_tick_closed)
qed


theorem auto_trigger_when_idle_witness:
  "state_ok auto_idle_disabled \<and> triggerMode (config auto_idle_disabled) = TRIG_AUTO \<and>
   \<not> triggered auto_idle_disabled \<and>
   \<not> channelEnabled (config auto_idle_disabled) ! (triggerChannel (config auto_idle_disabled) - 1) \<and>
   autoTriggerTimeout (config auto_idle_disabled)
     < micros (reading 100100 0) - autoTriggerStart auto_idle_disabled \<and>
   (\<exists>s'. acquisition_tick (reading 100100 0) auto_idle_disabled = Some s' \<and> triggered s' \<and>
      triggerIndex s' = 7 \<and> autoTriggerStart s' = 100100) \<and>
   state_ok auto_capture_next \<and> triggered auto_capture_next \<and>
   (\<exists>s'. acquisition_tick (reading 300000 0) auto_capture_next = Some s' \<and>
      triggerIndex s' = 3 \<and> autoTriggerStart s' = 100115) \<and>
   state_ok scenario_2048 \<and> triggerMode (config scenario_2048) \<noteq> TRIG_AUTO \<and>
   \<not> triggered scenario_2048 \<and>
   (\<exists>s'. acquisition_tick (reading 150 2100) scenario_2048 = Some s' \<and> triggered s') \<and>
   triggerEvent (triggerSlope (config scenario_2048)) (ring_sample 0 9 scenario_2048) 2100
     (triggerADC (triggerLevel (config scenario_2048)))"
proof -
  have ok1: "state_ok auto_idle_disabled"
    by (simp add: state_ok_def config_ok_def buffers_ok_def auto_idle_disabled_def example_defs)
  have ok2: "state_ok auto_capture_next"
    by (simp add: state_ok_def config_ok_def buffers_ok_def auto_capture_next_def example_defs)
  have a: "triggerMode (config auto_idle_disabled) = TRIG_AUTO" "\<not> triggered auto_idle_disabled"
    "\<not> channelEnabled (config auto_idle_disabled) ! (triggerChannel (config auto_idle_disabled) - 1)"
    "autoTriggerTimeout (config auto_idle_disabled)
       < micros (reading 100100 0) - autoTriggerStart auto_idle_disabled"
    "bufferIndex auto_idle_disabled = 7"
    by (simp_all add: auto_idle_disabled_def example_defs)
  have b: "triggered auto_capture_next" "triggerIndex auto_capture_next = 3"
    "autoTriggerStart auto_capture_next = 100115"
    "\<not> triggerEvent (triggerSlope (config auto_capture_next))
        (sampleBuffer auto_capture_next ! (triggerChannel (config auto_capture_next) - 1)
           ! (bufferIndex auto_capture_next - 1))
        (stored_sample (reading 300000 0) (config auto_capture_next)
           (triggerChannel (config auto_capture_next) - 1))
        (triggerADC (triggerLevel (config auto_capture_next)))"
    by (simp_all add: auto_capture_next_def example_defs triggerEvent_def triggerADC_def
        stored_sample_def)
  have c: "triggerMode (config scenario_2048) \<noteq> TRIG_AUTO" "\<not> triggered scenario_2048"
    "triggerEvent (triggerSlope (config scenario_2048)) (ring_sample 0 9 scenario_2048) 2100
       (triggerADC (triggerLevel (config scenario_2048)))"
    by (simp_all add: scenario_2048_def example_defs triggerEvent_def triggerADC_def
        ring_sample_def)
  have d: "edge_detected (scenario_2048\<lparr>sampleBuffer := ring_after (reading 150 2100) scenario_2048\<rparr>)"
    using c(3)
    by (simp add: edge_detected_sampled state_ok_scenario_2048)
       (simp add: scenario_2048_def example_defs stored_sample_def ring_sample_def)
  have e: "\<exists>s'. acquisition_tick (reading 150 2100) scenario_2048 = Some s' \<and> triggered s'"
    using after_tick_trigger_now(1) [of scenario_2048 "reading 150 2100"] d state_ok_scenario_2048
    by (simp add: acquisition_tick_closed state_ok_def)
  show ?thesis
    using auto_trigger_when_idle [OF ok1, of "reading 100100 0"]
      auto_trigger_when_idle [OF ok2, of "reading 300000 0"]
      auto_trigger_when_idle [OF state_ok_scenario_2048, of "reading 150 2100"]
      ok1 ok2 state_ok_scenario_2048 a b c e
    by (simp add: reading_def)
qed

text \<open>
  C7.  \<open>copyToDisplayBuffer\<close> writes all four display rows, each with the 256 ring
  entries of its own channel at the same positions \<open>(startIndex + i) mod 512\<close>, where
  \<open>startIndex\<close> depends on the trigger position only.  A tick either leaves the whole
  display buffer as it was or leaves it holding exactly that window of every channel.
\<close>

theorem display_channels_aligned:
  assumes "state_ok s"
  shows "(\<exists>s'. copyToDisplayBuffer s = Some s' \<and> length (displayBuffer s') = 4 \<and>
       sampleBuffer s' = sampleBuffer s \<and> triggerIndex s' = triggerIndex s \<and>
       (\<forall>ch < 4. displayBuffer s' ! ch =
          map (\<lambda>i. sampleBuffer s ! ch ! nat ((startIndex (triggerIndex s) + int i) mod 512))
            [0..<256])) \<and>
    (\<exists>s'. acquisition_tick inp s = Some s' \<and>
       (displayBuffer s' = displayBuffer s \<or>
        length (displayBuffer s') = 4 \<and>
        (\<forall>ch < 4. displayBuffer s' ! ch =
           map (\<lambda>i. sampleBuffer s' ! ch ! nat ((startIndex (triggerIndex s') + int i) mod 512))
             [0..<256])))"
proof
  have "buffers_ok s" using assms by (simp add: state_ok_def)
  then show "\<exists>s'. copyToDisplayBuffer s = Some s' \<and> length (displayBuffer s') = 4 \<and>
       sampleBuffer s' = sampleBuffer s \<and> triggerIndex s' = triggerIndex s \<and>
       (\<forall>ch < 4. displayBuffer s' ! ch =
          map (\<lambda>i. sampleBuffer s ! ch ! nat ((startIndex (triggerIndex s) + int i) mod 512))
            [0..<256])"
    by (simp add: copyToDisplayBuffer_closed snapshot_row)
next
  from after_tick_display [of inp s]
  have "displayBuffer (after_tick inp s) = displayBuffer s \<or>
        length (displayBuffer (after_tick inp s)) = 4 \<and>
        (\<forall>ch < 4. displayBuffer (after_tick inp s) ! ch =
           map (\<lambda>i. sampleBuffer (after_tick inp s) ! ch !
                  nat ((startIndex (triggerIndex (after_tick inp s)) + int i) mod 512)) [0..<256])"
  proof
    assume "displayBuffer (after_tick inp s) = displayBuffer s"
    then show ?thesis ..
  next
    assume "displayBuffer (after_tick inp s) = snapshot (after_tick inp s)"
    then show ?thesis by (simp add: snapshot_row)
  qed
  then show "\<exists>s'. acquisition_tick inp s = Some s' \<and>
       (displayBuffer s' = displayBuffer s \<or>
        length (displayBuffer s') = 4 \<and>
        (\<forall>ch < 4. displayBuffer s' ! ch =
           map (\<lambda>i. sampleBuffer s' ! ch ! nat ((startIndex (triggerIndex s') + int i) mod 512))
             [0..<256]))"
    using assms by (simp add: acquisition_tick_closed)
qed

theorem display_channels_aligned_witness:
  "state_ok capture_next \<and> startIndex (triggerIndex capture_next) = 36 \<and>
   (\<exists>s'. copyToDisplayBuffer capture_next = Some s' \<and>
      displayBuffer s' ! 0 ! 64 = 7 \<and> displayBuffer s' ! 1 ! 64 = 0 \<and>
      displayBuffer s' ! 2 ! 64 = 0 \<and> displayBuffer s' ! 3 ! 64 = 0) \<and>
   (\<exists>s'. acquisition_tick (reading 1000 0) capture_next = Some s' \<and>
      displayBuffer s' \<noteq> displayBuffer capture_next \<and>
      displayBuffer s' ! 0 ! 64 = 7 \<and> displayBuffer s' ! 1 ! 64 = 0)"
proof -
  note al = display_channels_aligned [OF state_ok_capture_next, of "reading 1000 0"]
  have st: "startIndex (triggerIndex capture_next) = 36"
    by (simp add: startIndex_def capture_next_def capture_due_def example_defs)
  have ring: "sampleBuffer capture_next ! 0 ! 100 = 7" "sampleBuffer capture_next ! 1 ! 100 = 0"
    "sampleBuffer capture_next ! 2 ! 100 = 0" "sampleBuffer capture_next ! 3 ! 100 = 0"
    by (simp_all add: capture_next_def capture_due_def example_defs)
  from al obtain s' where c: "copyToDisplayBuffer capture_next = Some s'"
    "\<forall>ch < 4. displayBuffer s' ! ch =
          map (\<lambda>i. sampleBuffer capture_next ! ch !
            nat ((startIndex (triggerIndex capture_next) + int i) mod 512)) [0..<256]"
    by blast
  have c': "displayBuffer s' ! 0 ! 64 = 7" "displayBuffer s' ! 1 ! 64 = 0"
      "displayBuffer s' ! 2 ! 64 = 0" "displayBuffer s' ! 3 ! 64 = 0"
    using c(2) ring by (simp_all add: st del: upt_Suc)
  from al obtain s1 where t: "acquisition_tick (reading 1000 0) capture_next = Some s1"
    "displayBuffer s1 = displayBuffer capture_next \<or>
        length (displayBuffer s1) = 4 \<and>
        (\<forall>ch < 4. displayBuffer s1 ! ch =
           map (\<lambda>i. sampleBuffer s1 ! ch ! nat ((startIndex (triggerIndex s1) + int i) mod 512))
             [0..<256])"
    by blast
  have s1: "s1 = after_tick (reading 1000 0) capture_next"
    using t(1) state_ok_capture_next by (simp add: acquisition_tick_closed)
  have d: "displayBuffer s1 = snapshot (at_cursor (reading 1000 0) capture_next)"
    using capture_next_tick(1) by (simp add: s1 after_tick_def extracted_def)
  have "displayBuffer s1 ! 0 ! 64 = 7" "displayBuffer s1 ! 1 ! 64 = 0"
    using capture_next_tick
    by (simp_all add: d snapshot_nth BUFFER_SIZE_def at_cursor_fields nth_ring_after
        capture_next_def capture_due_def example_defs)
  moreover have "displayBuffer capture_next ! 0 ! 64 = 0"
    by (simp add: capture_next_def capture_due_def example_defs)
  ultimately have "displayBuffer s1 \<noteq> displayBuffer capture_next"
      "displayBuffer s1 ! 0 ! 64 = 7" "displayBuffer s1 ! 1 ! 64 = 0"
    by auto
  with c(1) c' t(1) st state_ok_capture_next show ?thesis by blast
qed

text \<open>
  C9.  The code at the failing inputs.  A trigger level of 5000 mV or of -1 mV, a
  trigger channel 5 or 0 and a voltage-scale command for channel 5 (index 4) leave the
  configuration as it is and print nothing.  The sibling branches do report: a voltage
  scale of 7 mV/div on channel 1 and a position of 3.5 divisions print their rejection
  lines.
\<close>

theorem silent_rejections:
  "tlevel_cmd 5000 initial_config = (initial_config, []) \<and>
   tlevel_cmd (- 1) initial_config = (initial_config, []) \<and>
   trigger_cmd 5 initial_config = (initial_config, []) \<and>
   trigger_cmd 0 initial_config = (initial_config, []) \<and>
   parseVScale 4 100 initial_config = Some (initial_config, []) \<and>
   parseVScale 0 7 initial_config =
     Some (initial_config,
           [[Lit ''Invalid voltage scale. Valid: 5,10,20,50,100,200,500,1000,2000'']]) \<and>
   parsePosition 0 3.5 initial_config =
     Some (initial_config,
           [[Lit ''Invalid position. Must be between -3.0 and +3.0 divisions'']])"
  by (simp add: tlevel_cmd_def trigger_cmd_def parseVScale_def parsePosition_def vScaleValues_def)

text \<open>
  C10.  In every reachable state the write cursor lies below 512 and the arrays have
  their declared sizes; from such a state a pass of the acquisition loop performs no
  access outside an array (the checked model returns a state, never \<open>None\<close>), and a tick
  moves the cursor to the next position, returning to 0 exactly when 512 is reached.
  Commands leave the configuration within the same bounds.
\<close>

theorem buffer_accesses_in_bounds:
  assumes "reachable s"
  shows "bufferIndex s < BUFFER_SIZE \<and> state_ok s \<and>
    (\<exists>s'. acquisition_iteration inp s = Some s' \<and> state_ok s') \<and>
    (\<exists>s'. acquisition_tick inp s = Some s' \<and>
       bufferIndex s' = (if bufferIndex s + 1 = BUFFER_SIZE then 0 else bufferIndex s + 1)) \<and>
    (\<exists>cfg. apply_command c (config s) = Some cfg \<and> config_ok cfg)"
proof -
  have ok: "state_ok s" using assms by (rule reachable_state_ok)
  then have b: "bufferIndex s < BUFFER_SIZE" by (simp add: state_ok_def)
  obtain s' where it: "acquisition_iteration inp s = Some s'"
    using ok by (simp add: acquisition_iteration_closed)
  then have "state_ok s'" using ok by (blast intro: state_ok_iteration)
  moreover have "\<exists>s'. acquisition_tick inp s = Some s' \<and>
       bufferIndex s' = (if bufferIndex s + 1 = BUFFER_SIZE then 0 else bufferIndex s + 1)"
    using ok b by (simp add: acquisition_tick_closed bufferIndex_after_tick)
  moreover have "\<exists>cfg. apply_command c (config s) = Some cfg \<and> config_ok cfg"
    using ok config_ok_apply_command [of "config s" c] by (simp add: state_ok_def)
  ultimately show ?thesis using ok b it by blast
qed

theorem buffer_accesses_in_bounds_witness:
  "reachable (initial_state 0) \<and> bufferIndex (initial_state 0) < BUFFER_SIZE \<and>
   (\<exists>s'. acquisition_iteration (reading 15 0) (initial_state 0) = Some s' \<and> state_ok s') \<and>
   (\<exists>s'. acquisition_tick (reading 15 0) (initial_state 0) = Some s' \<and> bufferIndex s' = 1) \<and>
   (\<exists>cfg. apply_command (Trigger 4) (config (initial_state 0)) = Some cfg \<and> config_ok cfg)"
proof -
  have b: "bufferIndex (initial_state 0) = 0" "(0::nat) + 1 \<noteq> BUFFER_SIZE"
    by (simp_all add: initial_state_def BUFFER_SIZE_def)
  show ?thesis
    using buffer_accesses_in_bounds [OF reachable.start, of 0 "reading 15 0" "Trigger 4"]
      reachable.start [of 0]
    unfolding b by (simp add: BUFFER_SIZE_def)
qed

end
